theory Spec2Isabelle
  imports Main "HOL-Library.Sublist"
begin

section \<open>The Elasticsearch sink of meniscus (sinks/elasticsearch/sink.py)\<close>

text \<open>
  The module has two halves. \<^verbatim>\<open>put_message\<close> builds an index action for a correlated
  message and publishes it on the durable queue. \<^verbatim>\<open>flush_to_es\<close> is the body of a worker
  process: it pulls messages off that queue through the generator \<^verbatim>\<open>get_queue_stream\<close>,
  hands the generator to the bulk helper of the Elasticsearch client, and acknowledges
  the pulled messages while it walks the helper's responses.
  \<^verbatim>\<open>ElasticSearchStreamBulker\<close> starts a pool of such workers.

  The broker, the backend and the random identifier generator are outside the module.
  They are parameters of the model: every call the module makes to one of them has an
  outcome that the environment chooses, either a value or a raised exception.
\<close>

subsection \<open>Python exceptions and JSON documents\<close>

text \<open>
  \<^verbatim>\<open>except Exception\<close> catches the instances of \<^verbatim>\<open>Exception\<close>. \<^verbatim>\<open>KeyboardInterrupt\<close> and
  \<^verbatim>\<open>SystemExit\<close> derive from \<^verbatim>\<open>BaseException\<close> only and pass through such a handler.
  \<^verbatim>\<open>Empty\<close> is what kombu's \<^verbatim>\<open>SimpleQueue.get\<close> raises when its timeout elapses with no
  message.
\<close>

datatype py_exception =
    Empty
  | KeyError
  | TypeError
  | IndexError
  | ConnectionError
  | BulkIndexError
  | ValueError
  | KeyboardInterrupt
  | SystemExit

fun is_Exception :: "py_exception \<Rightarrow> bool" where
  "is_Exception KeyboardInterrupt = False"
| "is_Exception SystemExit = False"
| "is_Exception _ = True"

datatype json =
    JNull
  | JBool bool
  | JNum int
  | JStr string
  | JList "json list"
  | JObj "(string \<times> json) list"

subsection \<open>Queue messages, the worker's state and its effects\<close>

text \<open>
  A kombu message: its delivery tag, its payload, and what \<^verbatim>\<open>msg.ack()\<close> does when called
  (\<open>None\<close>: it returns; \<open>Some ex\<close>: it raises \<open>ex\<close>, for example on a lost channel).
\<close>

record message =
  delivery_tag :: nat
  payload :: json
  ack_raises :: "py_exception option"

text \<open>
  \<^verbatim>\<open>simple_queue.get(block=True, timeout=bulk_timeout)\<close> either returns a message or raises.
  The source has no other branch: whatever the call does when no message arrives in time
  reaches the code as an exception. A worker's queue is the list of the outcomes of its
  successive \<^verbatim>\<open>get\<close> calls, each a function of the timeout passed; when the list is
  used up the worker is blocked in \<^verbatim>\<open>get\<close> and the run is observed there.
\<close>

datatype get_outcome = Delivered message | GetRaises py_exception

type_synonym simple_queue = "(nat \<Rightarrow> get_outcome) list"

text \<open>
  What the bulk helper hands to the loop of \<^verbatim>\<open>flush_to_es\<close> for one submitted chunk: the
  responses it yields, in order, each with its \<^verbatim>\<open>ok\<close> flag (\<^verbatim>\<open>response[0]\<close>), and
  the exception it raises after them, if any. The backend is a function of the number
  of bulk calls made so far and of the chunk.
\<close>

datatype bulk_outcome = Responses "bool list" "py_exception option"

type_synonym backend = "nat \<Rightarrow> json list \<Rightarrow> bulk_outcome"

text \<open>
  The effects of a worker, in the order they happen:
  \<^item> \<open>CycleStart\<close>: lines 116-120, a new \<^verbatim>\<open>ack_list\<close>, a new stream (with its own broker
    connection) and a new bulker;
  \<^item> \<open>Pulled msg\<close>: lines 96-98, \<^verbatim>\<open>get\<close> returned \<open>msg\<close> and it was appended to \<^verbatim>\<open>ack_list\<close>;
  \<^item> \<open>BulkWrite actions\<close>: the bulker submitted a chunk to the backend;
  \<^item> \<open>Popped msg ok\<close>: lines 124-125, \<open>msg\<close> was popped for a response with flag \<open>ok\<close>;
  \<^item> \<open>Acked msg\<close>: line 128, \<^verbatim>\<open>msg.ack()\<close> returned;
  \<^item> \<open>Logged ex\<close>: line 131, \<^verbatim>\<open>_LOG.exception(ex)\<close>.
\<close>

datatype event =
    CycleStart
  | Pulled message
  | BulkWrite "json list"
  | Popped message bool
  | Acked message
  | Logged py_exception

text \<open>
  \<open>Running\<close>: inside the loops of \<^verbatim>\<open>flush_to_es\<close>. \<open>Spinning\<close>: the bulker is exhausted and
  the inner \<^verbatim>\<open>while True\<close> iterates over it for ever, without any effect.
  \<open>Terminated ex\<close>: \<open>ex\<close> left \<^verbatim>\<open>flush_to_es\<close>.
\<close>

datatype status = Running | Spinning | Terminated py_exception

record worker =
  ack_list :: "message list"
  chunk :: "json list"
  bulk_calls :: nat
  status :: status
  trace :: "event list"

subsection \<open>get\_queue\_stream, lines 83-99\<close>

text \<open>
  One resumption of the generator: \<^verbatim>\<open>get\<close>, then \<^verbatim>\<open>ack_list.append(msg)\<close>, then
  \<^verbatim>\<open>yield msg.payload\<close>. An exception of \<^verbatim>\<open>get\<close> leaves the generator before the append.
  (Opening the connection in the first resumption may raise as well; it has the effect
  of a first \<^verbatim>\<open>get\<close> that raises.)
\<close>

definition get_queue_stream ::
  "nat \<Rightarrow> (nat \<Rightarrow> get_outcome) \<Rightarrow> worker \<Rightarrow> worker \<times> (py_exception + json)" where
  "get_queue_stream bulk_timeout simple_queue_get w =
     (case simple_queue_get bulk_timeout of
        Delivered msg \<Rightarrow>
          (w\<lparr>ack_list := ack_list w @ [msg], trace := trace w @ [Pulled msg]\<rparr>,
           Inr (payload msg))
      | GetRaises ex \<Rightarrow> (w, Inl ex))"

subsection \<open>The bulk helper\<close>

text \<open>
  Modelled from the spec: \<^verbatim>\<open>es_helpers.streaming_bulk\<close> is the Elasticsearch client's, not
  this repository's. Spec 4.4, steps 1 and 2: it keeps a chunk of up to \<open>chunk_size\<close>
  payloads drawn from the stream, submits a full chunk as one request and yields the
  per-action results in the order submitted; it never submits an empty chunk. Here it
  receives the action the stream has just yielded; until the chunk is full it draws on.
\<close>

definition streaming_bulk ::
  "nat \<Rightarrow> backend \<Rightarrow> json \<Rightarrow> worker \<Rightarrow> worker \<times> bulk_outcome" where
  "streaming_bulk chunk_size es_client action w =
     (let actions = chunk w @ [action] in
      if length actions < chunk_size then (w\<lparr>chunk := actions\<rparr>, Responses [] None)
      else
        (w\<lparr>chunk := [], bulk_calls := Suc (bulk_calls w),
           trace := trace w @ [BulkWrite actions]\<rparr>,
         es_client (bulk_calls w) actions))"

subsection \<open>flush\_to\_es, lines 102-131\<close>

text \<open>
  Lines 116-120: the beginning of a pass through the \<^verbatim>\<open>try\<close> block.
\<close>

definition new_cycle :: "worker \<Rightarrow> worker" where
  "new_cycle w = w\<lparr>ack_list := [], chunk := [], trace := trace w @ [CycleStart]\<rparr>"

text \<open>
  Lines 130-131 and the outer \<^verbatim>\<open>while True\<close>: an \<^verbatim>\<open>Exception\<close> is logged and the \<^verbatim>\<open>try\<close>
  block is entered again; anything else leaves the function.
\<close>

definition except_clause :: "py_exception \<Rightarrow> worker \<Rightarrow> worker" where
  "except_clause ex w =
     (if is_Exception ex then new_cycle (w\<lparr>trace := trace w @ [Logged ex]\<rparr>)
      else w\<lparr>status := Terminated ex\<rparr>)"

text \<open>
  Lines 123-128, the body of \<^verbatim>\<open>for response in bulker\<close> over the responses of one chunk.
  \<^verbatim>\<open>ack_list.pop(0)\<close> raises \<^verbatim>\<open>IndexError\<close> on an empty list. The result is the state
  reached and the exception that ended the walk, if one did.
\<close>

fun walk :: "bool list \<Rightarrow> worker \<Rightarrow> worker \<times> py_exception option" where
  "walk [] w = (w, None)"
| "walk (msg_ok # responses) w =
     (case ack_list w of
        [] \<Rightarrow> (w, Some IndexError)
      | msg # rest \<Rightarrow>
          (let w1 = w\<lparr>ack_list := rest, trace := trace w @ [Popped msg msg_ok]\<rparr> in
           if msg_ok then
             (case ack_raises msg of
                Some ex \<Rightarrow> (w1, Some ex)
              | None \<Rightarrow> walk responses (w1\<lparr>trace := trace w1 @ [Acked msg]\<rparr>))
           else walk responses w1))"

text \<open>
  What one \<^verbatim>\<open>get\<close> outcome leads to: the stream is resumed by the bulker; an exception
  passes through the bulker into the \<^verbatim>\<open>except\<close> clause; a payload goes to the bulker,
  whose responses (none while the chunk is not full) are walked, and an exception of the
  walk or of the bulker ends in the \<^verbatim>\<open>except\<close> clause.
\<close>

definition pull_step ::
  "nat \<Rightarrow> backend \<Rightarrow> nat \<Rightarrow> (nat \<Rightarrow> get_outcome) \<Rightarrow> worker \<Rightarrow> worker" where
  "pull_step BULK_SIZE es_client bulk_timeout simple_queue_get w =
     (case get_queue_stream bulk_timeout simple_queue_get w of
        (w1, Inl ex) \<Rightarrow> except_clause ex w1
      | (w1, Inr action) \<Rightarrow>
          (case streaming_bulk BULK_SIZE es_client action w1 of
             (w2, Responses responses raised) \<Rightarrow>
               (case walk responses w2 of
                  (w3, Some ex) \<Rightarrow> except_clause ex w3
                | (w3, None) \<Rightarrow>
                    (case raised of
                       Some ex \<Rightarrow> except_clause ex w3
                     | None \<Rightarrow> w3))))"

text \<open>
  The two \<^verbatim>\<open>while True\<close> loops, driven by the outcomes of the queue. A worker that is
  not running any more takes no further step.
\<close>

fun worker_loop ::
  "nat \<Rightarrow> backend \<Rightarrow> nat \<Rightarrow> simple_queue \<Rightarrow> worker \<Rightarrow> worker" where
  "worker_loop BULK_SIZE es_client bulk_timeout [] w = w"
| "worker_loop BULK_SIZE es_client bulk_timeout (g # queue) w =
     (if status w = Running
      then worker_loop BULK_SIZE es_client bulk_timeout queue
             (pull_step BULK_SIZE es_client bulk_timeout g w)
      else w)"

definition fresh_worker :: worker where
  "fresh_worker =
     \<lparr>ack_list = [], chunk = [], bulk_calls = 0, status = Running, trace = []\<rparr>"

text \<open>
  \<^verbatim>\<open>flush_to_es(bulk_timeout)\<close> in a new worker process. \<open>BULK_SIZE\<close> is the module's
  global (line 29), read from the handler's configuration. With a chunk size of 0 the
  bulker draws nothing and ends at once, so the \<^verbatim>\<open>for\<close> loop ends and the \<^verbatim>\<open>while True\<close>
  around it repeats it for ever.
\<close>

definition flush_to_es :: "nat \<Rightarrow> backend \<Rightarrow> simple_queue \<Rightarrow> nat \<Rightarrow> worker" where
  "flush_to_es BULK_SIZE es_client queue bulk_timeout =
     (if BULK_SIZE = 0 then (new_cycle fresh_worker)\<lparr>status := Spinning\<rparr>
      else worker_loop BULK_SIZE es_client bulk_timeout queue (new_cycle fresh_worker))"

subsection \<open>Reading a trace\<close>

fun acked :: "event list \<Rightarrow> message list" where
  "acked [] = []"
| "acked (Acked m # tr) = m # acked tr"
| "acked (e # tr) = acked tr"

fun pulled :: "event list \<Rightarrow> message list" where
  "pulled [] = []"
| "pulled (Pulled m # tr) = m # pulled tr"
| "pulled (e # tr) = pulled tr"

fun popped :: "event list \<Rightarrow> message list" where
  "popped [] = []"
| "popped (Popped m ok # tr) = m # popped tr"
| "popped (e # tr) = popped tr"

fun popped_ok :: "event list \<Rightarrow> message list" where
  "popped_ok [] = []"
| "popped_ok (Popped m ok # tr) = (if ok then m # popped_ok tr else popped_ok tr)"
| "popped_ok (e # tr) = popped_ok tr"

fun bulk_writes :: "event list \<Rightarrow> json list list" where
  "bulk_writes [] = []"
| "bulk_writes (BulkWrite c # tr) = c # bulk_writes tr"
| "bulk_writes (e # tr) = bulk_writes tr"

text \<open>The exceptions logged by the \<^verbatim>\<open>except\<close> clause, in order.\<close>

fun logged_exceptions :: "event list \<Rightarrow> py_exception list" where
  "logged_exceptions [] = []"
| "logged_exceptions (Logged ex # tr) = ex # logged_exceptions tr"
| "logged_exceptions (e # tr) = logged_exceptions tr"

text \<open>
  The number of streams created so far, one per pass through lines 116-120. A stream
  has a broker connection of its own: its \<^verbatim>\<open>with Connection(broker_url)\<close> (line 92) opens
  one when the bulker first resumes it, so the pulls of two cycles never share a
  connection.
\<close>

fun connections :: "event list \<Rightarrow> nat" where
  "connections [] = 0"
| "connections (CycleStart # tr) = Suc (connections tr)"
| "connections (e # tr) = connections tr"

text \<open>The events since the last \<open>CycleStart\<close>.\<close>

definition current_cycle :: "event list \<Rightarrow> event list" where
  "current_cycle tr = rev (takeWhile (\<lambda>e. e \<noteq> CycleStart) (rev tr))"

text \<open>The events of walking one response for the pending entry \<open>m\<close>.\<close>

fun walk_events :: "message \<times> bool \<Rightarrow> event list" where
  "walk_events (m, ok) = Popped m ok # (if ok then [Acked m] else [])"

definition deliver :: "message \<Rightarrow> nat \<Rightarrow> get_outcome" where
  "deliver m = (\<lambda>timeout. Delivered m)"

text \<open>The messages that the queue hands out when called with the timeout \<open>t\<close>.\<close>

fun deliveries :: "nat \<Rightarrow> simple_queue \<Rightarrow> message list" where
  "deliveries t [] = []"
| "deliveries t (g # queue) =
     (case g t of
        Delivered m \<Rightarrow> m # deliveries t queue
      | GetRaises ex \<Rightarrow> deliveries t queue)"

text \<open>The exceptions that the queue raises when called with the timeout \<open>t\<close>.\<close>

fun get_raises :: "nat \<Rightarrow> simple_queue \<Rightarrow> py_exception list" where
  "get_raises t [] = []"
| "get_raises t (g # queue) =
     (case g t of
        Delivered m \<Rightarrow> get_raises t queue
      | GetRaises ex \<Rightarrow> ex # get_raises t queue)"


text \<open>
  What the environment raises is caught by \<^verbatim>\<open>except Exception\<close>: the exceptions of the
  queue called with the timeout \<open>t\<close>, those of the bulk helper, and those of \<^verbatim>\<open>ack\<close> on
  the messages \<open>ms\<close>.
\<close>

definition raises_only_Exceptions ::
  "backend \<Rightarrow> nat \<Rightarrow> simple_queue \<Rightarrow> message list \<Rightarrow> bool" where
  "raises_only_Exceptions es_client t queue ms =
     ((\<forall>ex \<in> set (get_raises t queue). is_Exception ex) \<and>
      (\<forall>n actions responses ex.
         es_client n actions = Responses responses (Some ex) \<longrightarrow> is_Exception ex) \<and>
      (\<forall>m \<in> set ms. \<forall>ex. ack_raises m = Some ex \<longrightarrow> is_Exception ex))"

text \<open>
  At the end of the trace \<open>tr\<close>: the messages acknowledged in the current cycle were
  popped for a response with a true flag in that cycle, and the messages popped in the
  cycle are the first of those pulled in it, in the same order.
\<close>

definition ack_justified :: "event list \<Rightarrow> bool" where
  "ack_justified tr =
     (set (acked (current_cycle tr)) \<subseteq> set (popped_ok (current_cycle tr)) \<and>
      prefix (popped (current_cycle tr)) (pulled (current_cycle tr)))"

text \<open>
  The invariant that links a worker's \<^verbatim>\<open>ack_list\<close> to its trace: the messages pulled in the
  current cycle are those already popped in it followed by the pending list, and the
  acknowledgements were justified at every earlier moment.
\<close>

definition cycle_inv :: "message list \<Rightarrow> event list \<Rightarrow> bool" where
  "cycle_inv al tr =
     (pulled (current_cycle tr) = popped (current_cycle tr) @ al \<and>
      set (acked (current_cycle tr)) \<subseteq> set (popped_ok (current_cycle tr)) \<and>
      (\<forall>p. prefix p tr \<longrightarrow> ack_justified p))"

text \<open>
  The worker after it has pulled \<open>m\<close>, the message that fills the chunk, and the bulker
  has submitted the chunk: the state in which the walk over the responses begins.
\<close>

definition submitted :: "message \<Rightarrow> worker \<Rightarrow> worker" where
  "submitted m w =
     w\<lparr>ack_list := ack_list w @ [m], chunk := [], bulk_calls := Suc (bulk_calls w),
       trace := trace w @ [Pulled m, BulkWrite (chunk w @ [payload m])]\<rparr>"

text \<open>No \<^verbatim>\<open>Exception\<close> has left \<^verbatim>\<open>flush_to_es\<close>.\<close>

definition survives :: "worker \<Rightarrow> bool" where
  "survives w = (case status w of Terminated ex \<Rightarrow> \<not> is_Exception ex | _ \<Rightarrow> True)"

subsection \<open>put\_message and \_queue\_index\_request, lines 34-80\<close>

text \<open>
  \<^verbatim>\<open>d[key]\<close> on a decoded JSON value: a dictionary without the key raises \<^verbatim>\<open>KeyError\<close>,
  and a value that is not a dictionary raises \<^verbatim>\<open>TypeError\<close> for a string key.
  \<open>subscript\<close> chains it: \<^verbatim>\<open>d[k1][k2]\<close> is \<open>subscript (getitem d k1) k2\<close>.
\<close>

definition getitem :: "json \<Rightarrow> string \<Rightarrow> py_exception + json" where
  "getitem d key =
     (case d of
        JObj items \<Rightarrow> (case map_of items key of Some v \<Rightarrow> Inr v | None \<Rightarrow> Inl KeyError)
      | _ \<Rightarrow> Inl TypeError)"

fun subscript :: "py_exception + json \<Rightarrow> string \<Rightarrow> py_exception + json" where
  "subscript (Inl ex) key = Inl ex"
| "subscript (Inr d) key = getitem d key"

text \<open>
  What the broker does during one call of \<^verbatim>\<open>_queue_index_request\<close>: whether declaring the
  exchange (line 62) raises, and whether publishing (lines 78-80) raises.
\<close>

record broker =
  declare_raises :: "py_exception option"
  publish_raises :: "py_exception option"

text \<open>
  The publishing side: how often \<^verbatim>\<open>uuid.uuid4()\<close> has been called, the actions
  on the durable queue (oldest first), and the exceptions logged by \<^verbatim>\<open>put_message\<close>.
  The generator itself is a parameter: \<open>uuid4 k\<close> is the text of the identifier that its
  call number \<open>k\<close> returns.
\<close>

record publisher =
  uuid_calls :: nat
  es_queue :: "json list"
  logged :: "py_exception list"

text \<open>
  Lines 50-80. The result is the state reached and the exception raised, if any.
\<close>

definition queue_index_request ::
  "(nat \<Rightarrow> string) \<Rightarrow> broker \<Rightarrow> json \<Rightarrow> json \<Rightarrow> json \<Rightarrow> json \<Rightarrow> publisher \<Rightarrow>
     publisher \<times> py_exception option" where
  "queue_index_request uuid4 br index doc_type document ttl p =
     (case declare_raises br of
        Some ex \<Rightarrow> (p, Some ex)
      | None \<Rightarrow>
          (let action = JObj [(''_index'', index), (''_type'', doc_type),
                 (''_id'', JStr (uuid4 (uuid_calls p))), (''_ttl'', ttl),
                 (''_source'', document)];
               p1 = p\<lparr>uuid_calls := Suc (uuid_calls p)\<rparr>
           in case publish_raises br of
                Some ex \<Rightarrow> (p1, Some ex)
              | None \<Rightarrow> (p1\<lparr>es_queue := es_queue p1 @ [action]\<rparr>, None)))"

text \<open>
  How one run of the task \<^verbatim>\<open>put_message\<close> ends: it returns, it asks celery to run
  the task again (\<^verbatim>\<open>put_message.retry()\<close>, line 47), or an exception that is not an
  \<^verbatim>\<open>Exception\<close> leaves it.
\<close>

datatype task_outcome = Returned | RetryRequested | Propagated py_exception

text \<open>Lines 45-47.\<close>

definition put_message_except :: "py_exception \<Rightarrow> publisher \<Rightarrow> publisher \<times> task_outcome" where
  "put_message_except ex p =
     (if is_Exception ex then (p\<lparr>logged := logged p @ [ex]\<rparr>, RetryRequested)
      else (p, Propagated ex))"

text \<open>
  Lines 34-47. The arguments of the call are evaluated from left to right, and
  \<open>ttl\<close> takes its default, the module's \<open>TTL\<close> (line 30).
\<close>

definition put_message ::
  "json \<Rightarrow> (nat \<Rightarrow> string) \<Rightarrow> broker \<Rightarrow> json \<Rightarrow> publisher \<Rightarrow> publisher \<times> task_outcome" where
  "put_message TTL uuid4 br message p =
     (case subscript (getitem message ''meniscus'') ''tenant'' of
        Inl ex \<Rightarrow> put_message_except ex p
      | Inr index \<Rightarrow>
          (case subscript (subscript (getitem message ''meniscus'') ''correlation'')
                  ''pattern'' of
             Inl ex \<Rightarrow> put_message_except ex p
           | Inr doc_type \<Rightarrow>
               (case queue_index_request uuid4 br index doc_type message TTL p of
                  (p1, Some ex) \<Rightarrow> put_message_except ex p1
                | (p1, None) \<Rightarrow> (p1, Returned))))"

text \<open>
  The task run for each message of a list in turn, whatever the outcomes; each run meets
  the broker paired with its message.
\<close>

fun put_messages ::
  "json \<Rightarrow> (nat \<Rightarrow> string) \<Rightarrow> (broker \<times> json) list \<Rightarrow> publisher \<Rightarrow> publisher" where
  "put_messages TTL uuid4 [] p = p"
| "put_messages TTL uuid4 ((br, message) # calls) p =
     put_messages TTL uuid4 calls (fst (put_message TTL uuid4 br message p))"

text \<open>The \<^verbatim>\<open>_id\<close> of an action on the queue.\<close>

fun action_id :: "json \<Rightarrow> json option" where
  "action_id (JObj items) = map_of items ''_id''"
| "action_id _ = None"

subsection \<open>ElasticSearchStreamBulker, lines 134-161\<close>

record ElasticSearchStreamBulker =
  bulk_size :: nat
  bulk_timeout :: nat
  concurrency :: nat
  pool :: "nat option"

text \<open>
  Lines 139-145. A keyword argument left out is \<open>None\<close> here; \<open>bulk_size\<close> then takes the
  module's \<open>BULK_SIZE\<close>, \<open>bulk_timeout\<close> 60 and \<open>concurrency\<close> the value of \<^verbatim>\<open>cpu_count()\<close>.
\<close>

definition ElasticSearchStreamBulker_init ::
  "nat \<Rightarrow> nat \<Rightarrow> nat option \<Rightarrow> nat option \<Rightarrow> nat option \<Rightarrow> ElasticSearchStreamBulker" where
  "ElasticSearchStreamBulker_init BULK_SIZE cpu_count size_arg timeout_arg concurrency_arg =
     \<lparr>bulk_size = (case size_arg of None \<Rightarrow> BULK_SIZE | Some b \<Rightarrow> b),
      bulk_timeout = (case timeout_arg of None \<Rightarrow> 60 | Some t \<Rightarrow> t),
      concurrency = (case concurrency_arg of None \<Rightarrow> cpu_count | Some c \<Rightarrow> c),
      pool = None\<rparr>"

text \<open>
  The process that calls \<^verbatim>\<open>start\<close>: for each signal, the handler that \<^verbatim>\<open>signal.signal\<close>
  has installed, as the list of the operations it performs (\<open>None\<close>: no handler is
  installed and the signal has its default disposition); and the lines logged at level
  info.
\<close>

datatype signal = SIGINT | SIGTERM

datatype pool_op = PoolClose | PoolJoin | LogInfo string | SysExit int

record main_process =
  handlers :: "signal \<Rightarrow> pool_op list option"
  info_log :: "string list"

text \<open>Lines 153-157, the function that \<^verbatim>\<open>start\<close> defines.\<close>

definition signal_handler :: "pool_op list" where
  "signal_handler = [PoolClose, PoolJoin, LogInfo ''ES_FLusher stopped'', SysExit 0]"

text \<open>
  Lines 147-161. \<^verbatim>\<open>Pool(self.concurrency)\<close> raises \<^verbatim>\<open>ValueError\<close> for fewer than one
  process, before \<^verbatim>\<open>self.pool\<close> is assigned and before anything is logged. Otherwise it
  creates the worker processes, and \<^verbatim>\<open>pool.map\<close> runs \<^verbatim>\<open>flush_to_es(self.bulk_timeout)\<close>
  once per element of a list of \<open>concurrency\<close> elements; worker \<open>i\<close> meets the backend and
  the queue \<open>env i\<close>. The function \<^verbatim>\<open>signal_handler\<close> is bound to a local name and nothing
  else is done with it: \<^verbatim>\<open>start\<close> has no call of \<^verbatim>\<open>signal.signal\<close>.
\<close>

definition start ::
  "nat \<Rightarrow> (nat \<Rightarrow> backend \<times> simple_queue) \<Rightarrow> main_process \<Rightarrow> ElasticSearchStreamBulker \<Rightarrow>
     py_exception + main_process \<times> ElasticSearchStreamBulker \<times> worker list" where
  "start BULK_SIZE env proc self =
     (if concurrency self = 0 then Inl ValueError
      else
        (let self1 = self\<lparr>pool := Some (concurrency self)\<rparr>;
             proc1 = proc\<lparr>info_log := info_log proc @ [''ES_FLusher starting process pool'']\<rparr>
         in Inr (proc1, self1,
              map (\<lambda>i. flush_to_es BULK_SIZE (fst (env i)) (snd (env i)) (bulk_timeout self1))
                [0..<concurrency self1])))"

text \<open>
  What the module runs in the main process when a signal arrives: the handler installed
  for it, and nothing when there is none.
\<close>

definition on_signal :: "main_process \<Rightarrow> signal \<Rightarrow> pool_op list" where
  "on_signal proc sig = (case handlers proc sig of None \<Rightarrow> [] | Some ops \<Rightarrow> ops)"

definition new_process :: main_process where
  "new_process = \<lparr>handlers = (\<lambda>sig. None), info_log = []\<rparr>"

subsection \<open>Sample data\<close>

definition msg_A :: message where
  "msg_A = \<lparr>delivery_tag = 1, payload = JStr ''A'', ack_raises = None\<rparr>"

definition msg_B :: message where
  "msg_B = \<lparr>delivery_tag = 2, payload = JStr ''B'', ack_raises = None\<rparr>"

definition msg_C :: message where
  "msg_C = \<lparr>delivery_tag = 3, payload = JStr ''C'', ack_raises = None\<rparr>"

definition ok_fail_ok :: backend where
  "ok_fail_ok = (\<lambda>n actions. Responses [True, False, True] None)"

definition ok_fail :: backend where
  "ok_fail = (\<lambda>n actions. Responses [True, False] None)"

definition all_ok :: backend where
  "all_ok = (\<lambda>n actions. Responses (map (\<lambda>a. True) actions) None)"

definition msg_D :: message where
  "msg_D = \<lparr>delivery_tag = 4, payload = JStr ''D'', ack_raises = Some ConnectionError\<rparr>"

definition backend_down :: backend where
  "backend_down = (\<lambda>n actions. Responses [] (Some ConnectionError))"

definition interrupted :: "nat \<Rightarrow> get_outcome" where
  "interrupted = (\<lambda>timeout. GetRaises KeyboardInterrupt)"

definition one_pending :: worker where
  "one_pending =
     \<lparr>ack_list = [msg_A], chunk = [JStr ''A''], bulk_calls = 0, status = Running,
      trace = [CycleStart, Pulled msg_A]\<rparr>"


definition timeout_elapses :: "nat \<Rightarrow> get_outcome" where
  "timeout_elapses = (\<lambda>timeout. GetRaises Empty)"

definition reliable_broker :: broker where
  "reliable_broker = \<lparr>declare_raises = None, publish_raises = None\<rparr>"

definition unreachable_broker :: broker where
  "unreachable_broker = \<lparr>declare_raises = Some ConnectionError, publish_raises = None\<rparr>"

definition new_publisher :: publisher where
  "new_publisher = \<lparr>uuid_calls = 0, es_queue = [], logged = []\<rparr>"

definition uuid_of_call :: "nat \<Rightarrow> string" where
  "uuid_of_call k = replicate (Suc k) CHR ''f''"

definition correlated_doc :: json where
  "correlated_doc =
     JObj [(''host'', JStr ''web1''),
           (''meniscus'', JObj [(''tenant'', JStr ''t1''),
              (''correlation'', JObj [(''pattern'', JStr ''apache'')])])]"

definition doc_without_tenant :: json where
  "doc_without_tenant =
     JObj [(''meniscus'', JObj [(''correlation'', JObj [(''pattern'', JStr ''apache'')])])]"

section \<open>Properties\<close>

subsection \<open>Reading traces\<close>

lemma acked_append: "acked (xs @ ys) = acked xs @ acked ys"
  by (induction xs rule: acked.induct) simp_all

lemma pulled_append: "pulled (xs @ ys) = pulled xs @ pulled ys"
  by (induction xs rule: pulled.induct) simp_all

lemma popped_append: "popped (xs @ ys) = popped xs @ popped ys"
  by (induction xs rule: popped.induct) simp_all

lemma popped_ok_append: "popped_ok (xs @ ys) = popped_ok xs @ popped_ok ys"
  by (induction xs rule: popped_ok.induct) simp_all

lemma current_cycle_start: "current_cycle (tr @ [CycleStart]) = []"
  by (simp add: current_cycle_def)

lemma current_cycle_snoc: "e \<noteq> CycleStart \<Longrightarrow> current_cycle (tr @ [e]) = current_cycle tr @ [e]"
  by (simp add: current_cycle_def)


subsection \<open>One chunk, from the first pull to the last response\<close>

lemma gather_chunk:
  "status w = Running \<Longrightarrow> length (chunk w) + length ms < bs \<Longrightarrow>
   worker_loop bs es t (map deliver ms) w =
     w\<lparr>ack_list := ack_list w @ ms, chunk := chunk w @ map payload ms,
       trace := trace w @ map Pulled ms\<rparr>"
proof (induction ms arbitrary: w)
  case Nil
  then show ?case by simp
next
  case (Cons m ms)
  have step: "pull_step bs es t (deliver m) w =
      w\<lparr>ack_list := ack_list w @ [m], chunk := chunk w @ [payload m],
        trace := trace w @ [Pulled m]\<rparr>"
    using Cons.prems
    by (simp add: pull_step_def get_queue_stream_def streaming_bulk_def deliver_def Let_def)
  show ?case
    using Cons.prems by (simp add: step Cons.IH)
qed

lemma walk_all:
  "length rs \<le> length (ack_list w) \<Longrightarrow>
   \<forall>m \<in> set (take (length rs) (ack_list w)). ack_raises m = None \<Longrightarrow>
   walk rs w =
     (w\<lparr>ack_list := drop (length rs) (ack_list w),
        trace := trace w @ concat (map walk_events (zip (ack_list w) rs))\<rparr>, None)"
proof (induction rs arbitrary: w)
  case Nil
  then show ?case by simp
next
  case (Cons r rs)
  then obtain m rest where al: "ack_list w = m # rest"
    by (cases "ack_list w") auto
  show ?case
    using Cons.prems al by (cases r) (simp_all add: Cons.IH Let_def)
qed

lemma worker_loop_stopped: "status w \<noteq> Running \<Longrightarrow> worker_loop bs es t q w = w"
  by (cases q) simp_all

lemma worker_loop_append:
  "worker_loop bs es t (q1 @ q2) w = worker_loop bs es t q2 (worker_loop bs es t q1 w)"
  by (induction q1 arbitrary: w) (simp_all add: worker_loop_stopped)

lemma full_chunk_step:
  assumes "status w = Running" "Suc (length (chunk w)) = bs"
    and "es (bulk_calls w) (chunk w @ [payload m]) = Responses rs None"
    and "length rs \<le> Suc (length (ack_list w))"
    and "\<forall>x \<in> set (take (length rs) (ack_list w @ [m])). ack_raises x = None"
  shows "pull_step bs es t (deliver m) w =
     w\<lparr>ack_list := drop (length rs) (ack_list w @ [m]), chunk := [],
       bulk_calls := Suc (bulk_calls w),
       trace := trace w @ Pulled m # BulkWrite (chunk w @ [payload m]) #
                concat (map walk_events (zip (ack_list w @ [m]) rs))\<rparr>"
  using assms
  by (simp add: pull_step_def get_queue_stream_def streaming_bulk_def deliver_def Let_def
      walk_all)

lemma one_chunk:
  assumes run: "status w = Running" and boundary: "chunk w = []" and ne: "ms \<noteq> []"
    and resp: "es (bulk_calls w) (map payload ms) = Responses rs None"
    and len: "length rs \<le> length (ack_list w) + length ms"
    and ok: "\<forall>m \<in> set (take (length rs) (ack_list w @ ms)). ack_raises m = None"
  shows "worker_loop (length ms) es t (map deliver ms) w =
     w\<lparr>ack_list := drop (length rs) (ack_list w @ ms), chunk := [],
       bulk_calls := Suc (bulk_calls w),
       trace := trace w @ map Pulled ms @ BulkWrite (map payload ms) #
                concat (map walk_events (zip (ack_list w @ ms) rs))\<rparr>"
proof -
  obtain ms' m where ms: "ms = ms' @ [m]"
    using ne by (cases ms rule: rev_cases) auto
  define bs where "bs = length ms"
  let ?w1 = "w\<lparr>ack_list := ack_list w @ ms', chunk := chunk w @ map payload ms',
       trace := trace w @ map Pulled ms'\<rparr>"
  have g: "worker_loop bs es t (map deliver ms') w = ?w1"
    using run boundary by (intro gather_chunk) (simp_all add: ms bs_def)
  have s: "pull_step bs es t (deliver m) ?w1 =
     ?w1\<lparr>ack_list := drop (length rs) (ack_list ?w1 @ [m]), chunk := [],
       bulk_calls := Suc (bulk_calls ?w1),
       trace := trace ?w1 @ Pulled m # BulkWrite (chunk ?w1 @ [payload m]) #
                concat (map walk_events (zip (ack_list ?w1 @ [m]) rs))\<rparr>"
    using run boundary resp len ok by (intro full_chunk_step) (simp_all add: ms bs_def)
  have "worker_loop bs es t (map deliver ms) w = pull_step bs es t (deliver m) ?w1"
    using run by (simp add: ms worker_loop_append g)
  also note s
  also have "?w1\<lparr>ack_list := drop (length rs) (ack_list ?w1 @ [m]), chunk := [],
       bulk_calls := Suc (bulk_calls ?w1),
       trace := trace ?w1 @ Pulled m # BulkWrite (chunk ?w1 @ [payload m]) #
                concat (map walk_events (zip (ack_list ?w1 @ [m]) rs))\<rparr> =
     w\<lparr>ack_list := drop (length rs) (ack_list w @ ms), chunk := [],
       bulk_calls := Suc (bulk_calls w),
       trace := trace w @ map Pulled ms @ BulkWrite (map payload ms) #
                concat (map walk_events (zip (ack_list w @ ms) rs))\<rparr>"
    by (simp add: boundary ms)
  finally show ?thesis
    unfolding bs_def .
qed

subsection \<open>The pending list and the trace\<close>

lemma cycle_invI:
  assumes "cycle_inv al tr"
    and "pulled (current_cycle (tr @ [e])) = popped (current_cycle (tr @ [e])) @ al'"
    and "set (acked (current_cycle (tr @ [e]))) \<subseteq> set (popped_ok (current_cycle (tr @ [e])))"
  shows "cycle_inv al' (tr @ [e])"
proof -
  have "ack_justified (tr @ [e])"
    using assms(2,3) by (simp add: ack_justified_def)
  then show ?thesis
    using assms by (auto simp: cycle_inv_def prefix_snoc)
qed

lemma cycle_inv_pull: "cycle_inv al tr \<Longrightarrow> cycle_inv (al @ [m]) (tr @ [Pulled m])"
  by (rule cycle_invI)
    (auto simp: cycle_inv_def current_cycle_snoc pulled_append popped_append acked_append
      popped_ok_append)

lemma cycle_inv_bulk: "cycle_inv al tr \<Longrightarrow> cycle_inv al (tr @ [BulkWrite c])"
  by (rule cycle_invI)
    (auto simp: cycle_inv_def current_cycle_snoc pulled_append popped_append acked_append
      popped_ok_append)

lemma cycle_inv_log: "cycle_inv al tr \<Longrightarrow> cycle_inv al (tr @ [Logged ex])"
  by (rule cycle_invI)
    (auto simp: cycle_inv_def current_cycle_snoc pulled_append popped_append acked_append
      popped_ok_append)

lemma cycle_inv_pop: "cycle_inv (m # rest) tr \<Longrightarrow> cycle_inv rest (tr @ [Popped m ok])"
  by (rule cycle_invI)
    (auto simp: cycle_inv_def current_cycle_snoc pulled_append popped_append acked_append
      popped_ok_append)

lemma cycle_inv_ack:
  "cycle_inv al tr \<Longrightarrow> m \<in> set (popped_ok (current_cycle tr)) \<Longrightarrow>
   cycle_inv al (tr @ [Acked m])"
  by (rule cycle_invI)
    (auto simp: cycle_inv_def current_cycle_snoc pulled_append popped_append acked_append
      popped_ok_append)

lemma cycle_inv_start: "cycle_inv al tr \<Longrightarrow> cycle_inv [] (tr @ [CycleStart])"
  by (rule cycle_invI) (auto simp: current_cycle_start)

lemma cycle_inv_log_start: "cycle_inv al tr \<Longrightarrow> cycle_inv [] (tr @ [Logged ex, CycleStart])"
  using cycle_inv_start [OF cycle_inv_log, of al tr ex] by simp

lemma cycle_inv_pull_bulk:
  "cycle_inv al tr \<Longrightarrow> cycle_inv (al @ [m]) (tr @ [Pulled m, BulkWrite c])"
  using cycle_inv_bulk [OF cycle_inv_pull, of al tr m c] by simp

lemma cycle_inv_pop_ack:
  assumes "cycle_inv (m # rest) tr"
  shows "cycle_inv rest (tr @ [Popped m True, Acked m])"
proof -
  have "cycle_inv rest (tr @ [Popped m True])"
    using assms by (rule cycle_inv_pop)
  moreover have "m \<in> set (popped_ok (current_cycle (tr @ [Popped m True])))"
    by (simp add: current_cycle_snoc popped_ok_append)
  ultimately have "cycle_inv rest ((tr @ [Popped m True]) @ [Acked m])"
    by (rule cycle_inv_ack)
  then show ?thesis by simp
qed

lemma cycle_inv_walk:
  "cycle_inv (ack_list w) (trace w) \<Longrightarrow>
   cycle_inv (ack_list (fst (walk rs w))) (trace (fst (walk rs w)))"
proof (induction rs arbitrary: w)
  case Nil
  then show ?case by simp
next
  case (Cons r rs)
  show ?case
  proof (cases "ack_list w")
    case Nil
    then show ?thesis using Cons.prems by simp
  next
    case (Cons m rest)
    let ?w1 = "w\<lparr>ack_list := rest, trace := trace w @ [Popped m r]\<rparr>"
    have w1: "cycle_inv (ack_list ?w1) (trace ?w1)"
      using Cons.prems Cons by (simp add: cycle_inv_pop)
    show ?thesis
    proof (cases "r \<and> ack_raises m = None")
      case True
      let ?w2 = "?w1\<lparr>trace := trace ?w1 @ [Acked m]\<rparr>"
      have "cycle_inv (ack_list ?w2) (trace ?w2)"
        using Cons.prems Cons True by (simp add: cycle_inv_pop_ack)
      then have "cycle_inv (ack_list (fst (walk rs ?w2))) (trace (fst (walk rs ?w2)))"
        by (rule Cons.IH)
      then show ?thesis
        using Cons True by (simp add: Let_def)
    next
      case False
      show ?thesis
      proof (cases r)
        case True
        then show ?thesis
          using False Cons w1 by (auto simp: Let_def)
      next
        case False
        have "cycle_inv (ack_list (fst (walk rs ?w1))) (trace (fst (walk rs ?w1)))"
          using w1 by (rule Cons.IH)
        then show ?thesis
          using Cons False by (simp add: Let_def)
      qed
    qed
  qed
qed

lemma cycle_inv_except:
  "cycle_inv (ack_list w) (trace w) \<Longrightarrow>
   cycle_inv (ack_list (except_clause ex w)) (trace (except_clause ex w))"
  by (simp add: except_clause_def new_cycle_def cycle_inv_log_start)

lemma cycle_inv_pull_step:
  assumes "cycle_inv (ack_list w) (trace w)"
  shows "cycle_inv (ack_list (pull_step bs es t g w)) (trace (pull_step bs es t g w))"
proof (cases "g t")
  case (GetRaises ex)
  then show ?thesis
    using assms by (simp add: pull_step_def get_queue_stream_def cycle_inv_except)
next
  case (Delivered m)
  let ?w1 = "w\<lparr>ack_list := ack_list w @ [m], trace := trace w @ [Pulled m]\<rparr>"
  have w1: "cycle_inv (ack_list ?w1) (trace ?w1)"
    using assms by (simp add: cycle_inv_pull)
  obtain w2 rs raised where sb: "streaming_bulk bs es (payload m) ?w1 = (w2, Responses rs raised)"
    by (metis bulk_outcome.exhaust surj_pair)
  have w2: "cycle_inv (ack_list w2) (trace w2)"
    using sb assms
    by (auto simp: streaming_bulk_def Let_def cycle_inv_pull cycle_inv_pull_bulk
        split: if_splits)
  obtain w3 r where wk: "walk rs w2 = (w3, r)"
    by (cases "walk rs w2")
  have w3: "cycle_inv (ack_list w3) (trace w3)"
    using cycle_inv_walk [OF w2, of rs] wk by simp
  show ?thesis
    using Delivered sb wk w3
    by (simp add: pull_step_def get_queue_stream_def cycle_inv_except split: option.splits)
qed

lemma cycle_inv_worker_loop:
  "cycle_inv (ack_list w) (trace w) \<Longrightarrow>
   cycle_inv (ack_list (worker_loop bs es t q w)) (trace (worker_loop bs es t q w))"
  by (induction q arbitrary: w) (simp_all add: cycle_inv_pull_step)

lemma cycle_inv_empty: "cycle_inv [] []"
  by (simp add: cycle_inv_def current_cycle_def ack_justified_def)

lemma cycle_inv_flush_to_es:
  "cycle_inv (ack_list (flush_to_es bs es q t)) (trace (flush_to_es bs es q t))"
proof -
  have "cycle_inv (ack_list (new_cycle fresh_worker)) (trace (new_cycle fresh_worker))"
    using cycle_inv_start [OF cycle_inv_empty] by (simp add: new_cycle_def fresh_worker_def)
  then show ?thesis
    by (simp add: flush_to_es_def cycle_inv_worker_loop)
qed




subsection \<open>What the walk over the responses leaves alone\<close>

lemma logged_exceptions_append:
  "logged_exceptions (xs @ ys) = logged_exceptions xs @ logged_exceptions ys"
  by (induction xs rule: logged_exceptions.induct) simp_all

lemma connections_append: "connections (xs @ ys) = connections xs + connections ys"
  by (induction xs rule: connections.induct) simp_all

lemma walk_preserves:
  assumes "Q w"
    and pop: "\<And>v m rest ok. Q v \<Longrightarrow> ack_list v = m # rest \<Longrightarrow>
        Q (v\<lparr>ack_list := rest, trace := trace v @ [Popped m ok]\<rparr>)"
    and ack: "\<And>v m. Q v \<Longrightarrow> Q (v\<lparr>trace := trace v @ [Acked m]\<rparr>)"
  shows "Q (fst (walk rs w))"
  using assms(1)
proof (induction rs arbitrary: w)
  case Nil
  then show ?case by simp
next
  case (Cons r rs)
  show ?case
  proof (cases "ack_list w")
    case Nil
    then show ?thesis using Cons.prems by simp
  next
    case al: (Cons m rest)
    let ?w1 = "w\<lparr>ack_list := rest, trace := trace w @ [Popped m r]\<rparr>"
    let ?w2 = "?w1\<lparr>trace := trace ?w1 @ [Acked m]\<rparr>"
    have w1: "Q ?w1"
      using Cons.prems al by (rule pop)
    have w2: "Q ?w2"
      using w1 by (rule ack)
    show ?thesis
    proof (cases r)
      case True
      show ?thesis
      proof (cases "ack_raises m")
        case None
        then have "walk (r # rs) w = walk rs ?w2"
          using al True by (simp add: Let_def)
        then show ?thesis
          using Cons.IH [OF w2] by simp
      next
        case (Some ex)
        then have "walk (r # rs) w = (?w1, Some ex)"
          using al True by (simp add: Let_def)
        then show ?thesis
          using w1 by simp
      qed
    next
      case False
      then have "walk (r # rs) w = walk rs ?w1"
        using al by (simp add: Let_def)
      then show ?thesis
        using Cons.IH [OF w1] by simp
    qed
  qed
qed

lemma pulled_walk: "pulled (trace (fst (walk rs w))) = pulled (trace w)"
  by (rule walk_preserves [where Q = "\<lambda>v. pulled (trace v) = pulled (trace w)"])
    (simp_all add: pulled_append)

lemma logged_walk:
  "logged_exceptions (trace (fst (walk rs w))) = logged_exceptions (trace w)"
  by (rule walk_preserves
      [where Q = "\<lambda>v. logged_exceptions (trace v) = logged_exceptions (trace w)"])
    (simp_all add: logged_exceptions_append)

lemma connections_walk: "connections (trace (fst (walk rs w))) = connections (trace w)"
  by (rule walk_preserves [where Q = "\<lambda>v. connections (trace v) = connections (trace w)"])
    (simp_all add: connections_append)

lemma suffix_walk: "suffix (ack_list (fst (walk rs w))) (ack_list w)"
  by (rule walk_preserves [where Q = "\<lambda>v. suffix (ack_list v) (ack_list w)"])
    (auto dest: suffix_ConsD)


lemma walk_raises:
  "snd (walk rs w) = Some ex \<Longrightarrow>
   ex = IndexError \<or> (\<exists>m \<in> set (ack_list w). ack_raises m = Some ex)"
proof (induction rs arbitrary: w)
  case Nil
  then show ?case by simp
next
  case (Cons r rs)
  show ?case
  proof (cases "ack_list w")
    case Nil
    then show ?thesis using Cons.prems by simp
  next
    case al: (Cons m rest)
    let ?w1 = "w\<lparr>ack_list := rest, trace := trace w @ [Popped m r]\<rparr>"
    let ?w2 = "?w1\<lparr>trace := trace ?w1 @ [Acked m]\<rparr>"
    show ?thesis
    proof (cases r)
      case True
      show ?thesis
      proof (cases "ack_raises m")
        case None
        then have "walk (r # rs) w = walk rs ?w2"
          using al True by (simp add: Let_def)
        then show ?thesis
          using Cons.IH [of ?w2] Cons.prems al by auto
      next
        case (Some e)
        then have "walk (r # rs) w = (?w1, Some e)"
          using al True by (simp add: Let_def)
        then show ?thesis
          using Cons.prems al Some by auto
      qed
    next
      case False
      then have "walk (r # rs) w = walk rs ?w1"
        using al by (simp add: Let_def)
      then show ?thesis
        using Cons.IH [of ?w1] Cons.prems al by auto
    qed
  qed
qed




subsection \<open>Exceptions and the status of the worker\<close>

lemma status_walk: "status (fst (walk rs w)) = status w"
proof (induction rs arbitrary: w)
  case Nil
  show ?case by simp
next
  case (Cons r rs)
  show ?case
    by (cases "ack_list w"; cases r; cases "ack_raises (hd (ack_list w))")
      (simp_all add: Let_def Cons.IH)
qed

lemma status_except:
  "status (except_clause ex w) = (if is_Exception ex then status w else Terminated ex)"
  by (simp add: except_clause_def new_cycle_def)

lemma survives_except: "survives w \<Longrightarrow> survives (except_clause ex w)"
  by (simp add: survives_def status_except)

lemma survives_pull_step:
  assumes "survives w"
  shows "survives (pull_step bs es t g w)"
proof (cases "g t")
  case (GetRaises ex)
  then show ?thesis
    using assms by (simp add: pull_step_def get_queue_stream_def survives_except)
next
  case (Delivered m)
  let ?w1 = "w\<lparr>ack_list := ack_list w @ [m], trace := trace w @ [Pulled m]\<rparr>"
  obtain w2 rs raised where sb: "streaming_bulk bs es (payload m) ?w1 = (w2, Responses rs raised)"
    by (metis bulk_outcome.exhaust surj_pair)
  have w2: "status w2 = status w"
    using sb by (auto simp: streaming_bulk_def Let_def split: if_splits)
  obtain w3 r where wk: "walk rs w2 = (w3, r)"
    by (cases "walk rs w2")
  have "status w3 = status w"
    using status_walk [of rs w2] wk w2 by simp
  then have w3: "survives w3"
    using assms by (simp add: survives_def)
  show ?thesis
    using Delivered sb wk w3
    by (simp add: pull_step_def get_queue_stream_def survives_except split: option.splits)
qed

lemma survives_worker_loop: "survives w \<Longrightarrow> survives (worker_loop bs es t q w)"
  by (induction q arbitrary: w) (simp_all add: survives_pull_step)

lemma survives_flush_to_es: "survives (flush_to_es bs es q t)"
proof -
  have "survives (new_cycle fresh_worker)"
    by (simp add: survives_def new_cycle_def fresh_worker_def)
  then show ?thesis
    by (simp add: flush_to_es_def survives_worker_loop) (simp add: survives_def)
qed

subsection \<open>The loop goes on after an exception\<close>

lemma pull_step_cases [case_names get_raised gathering walk_raised bulk_raised flushed]:
  obtains
    ex where "g t = GetRaises ex" "pull_step bs es t g w = except_clause ex w"
  | m where "g t = Delivered m" "Suc (length (chunk w)) < bs"
      "pull_step bs es t g w =
         w\<lparr>ack_list := ack_list w @ [m], chunk := chunk w @ [payload m],
           trace := trace w @ [Pulled m]\<rparr>"
  | m rs raised ex where "g t = Delivered m" "\<not> Suc (length (chunk w)) < bs"
      "es (bulk_calls w) (chunk w @ [payload m]) = Responses rs raised"
      "snd (walk rs (submitted m w)) = Some ex"
      "pull_step bs es t g w = except_clause ex (fst (walk rs (submitted m w)))"
  | m rs ex where "g t = Delivered m" "\<not> Suc (length (chunk w)) < bs"
      "es (bulk_calls w) (chunk w @ [payload m]) = Responses rs (Some ex)"
      "snd (walk rs (submitted m w)) = None"
      "pull_step bs es t g w = except_clause ex (fst (walk rs (submitted m w)))"
  | m rs where "g t = Delivered m" "\<not> Suc (length (chunk w)) < bs"
      "es (bulk_calls w) (chunk w @ [payload m]) = Responses rs None"
      "snd (walk rs (submitted m w)) = None"
      "pull_step bs es t g w = fst (walk rs (submitted m w))"
proof (cases "g t")
  case (GetRaises ex)
  then have "pull_step bs es t g w = except_clause ex w"
    by (simp add: pull_step_def get_queue_stream_def)
  then show ?thesis
    using GetRaises that(1) by blast
next
  case (Delivered m)
  show ?thesis
  proof (cases "Suc (length (chunk w)) < bs")
    case True
    then have "pull_step bs es t g w =
         w\<lparr>ack_list := ack_list w @ [m], chunk := chunk w @ [payload m],
           trace := trace w @ [Pulled m]\<rparr>"
      using Delivered
      by (simp add: pull_step_def get_queue_stream_def streaming_bulk_def Let_def)
    then show ?thesis
      using Delivered True that(2) by blast
  next
    case False
    obtain rs raised where resp: "es (bulk_calls w) (chunk w @ [payload m]) = Responses rs raised"
      by (cases "es (bulk_calls w) (chunk w @ [payload m])")
    have step: "pull_step bs es t g w =
        (case walk rs (submitted m w) of
           (w3, Some ex) \<Rightarrow> except_clause ex w3
         | (w3, None) \<Rightarrow> (case raised of Some ex \<Rightarrow> except_clause ex w3 | None \<Rightarrow> w3))"
      using Delivered False resp
      by (simp add: pull_step_def get_queue_stream_def streaming_bulk_def Let_def submitted_def)
    show ?thesis
    proof (cases "snd (walk rs (submitted m w))")
      case (Some ex)
      then have "pull_step bs es t g w = except_clause ex (fst (walk rs (submitted m w)))"
        using step by (simp add: split_beta)
      then show ?thesis
        using Delivered False resp Some that(3) by blast
    next
      case None
      show ?thesis
      proof (cases raised)
        case (Some ex)
        then have "pull_step bs es t g w = except_clause ex (fst (walk rs (submitted m w)))"
          using step None by (simp add: split_beta)
        then show ?thesis
          using Delivered False resp None Some that(4) by blast
      next
        case raised: None
        then have "pull_step bs es t g w = fst (walk rs (submitted m w))"
          using step None by (simp add: split_beta)
        then show ?thesis
          using Delivered False resp None raised that(5) by blast
      qed
    qed
  qed
qed


lemma except_clause_Exception:
  "is_Exception ex \<Longrightarrow>
   except_clause ex w =
     w\<lparr>ack_list := [], chunk := [], trace := trace w @ [Logged ex, CycleStart]\<rparr>"
  by (simp add: except_clause_def new_cycle_def)

lemma pull_step_survives:
  assumes run: "status w = Running"
    and get: "\<forall>ex \<in> set (get_raises t [g]). is_Exception ex"
    and bulk: "\<forall>n actions responses ex.
       es n actions = Responses responses (Some ex) \<longrightarrow> is_Exception ex"
    and ack: "\<forall>m \<in> set (ack_list w) \<union> set (deliveries t [g]).
       \<forall>ex. ack_raises m = Some ex \<longrightarrow> is_Exception ex"
  shows "status (pull_step bs es t g w) = Running \<and>
     set (ack_list (pull_step bs es t g w)) \<subseteq> set (ack_list w) \<union> set (deliveries t [g]) \<and>
     pulled (trace (pull_step bs es t g w)) = pulled (trace w) @ deliveries t [g] \<and>
     (\<exists>xs. logged_exceptions (trace (pull_step bs es t g w)) =
             logged_exceptions (trace w) @ xs \<and>
           subseq (get_raises t [g]) xs \<and>
           connections (trace (pull_step bs es t g w)) = connections (trace w) + length xs)"
proof (cases rule: pull_step_cases [of g t bs es w])
  case (get_raised ex)
  then have "is_Exception ex"
    using get by simp
  then show ?thesis
    using get_raised run
    by (simp add: except_clause_Exception pulled_append logged_exceptions_append
        connections_append)
next
  case (gathering m)
  then show ?thesis
    using run by (simp add: pulled_append logged_exceptions_append connections_append)
next
  case (walk_raised m rs raised ex)
  let ?v = "fst (walk rs (submitted m w))"
  have "ex = IndexError \<or> (\<exists>x \<in> set (ack_list (submitted m w)). ack_raises x = Some ex)"
    using walk_raised(4) by (rule walk_raises)
  then have ex: "is_Exception ex"
    using ack walk_raised(1) by (auto simp: submitted_def)
  have "status ?v = Running"
    using run by (simp add: status_walk submitted_def)
  moreover have "pulled (trace ?v) = pulled (trace w) @ [m]"
    by (simp add: pulled_walk submitted_def pulled_append)
  moreover have "logged_exceptions (trace ?v) = logged_exceptions (trace w)"
    by (simp add: logged_walk submitted_def logged_exceptions_append)
  moreover have "connections (trace ?v) = connections (trace w)"
    by (simp add: connections_walk submitted_def connections_append)
  ultimately show ?thesis
    using walk_raised(1,5) ex
    by (simp add: except_clause_Exception pulled_append logged_exceptions_append
        connections_append)
next
  case (bulk_raised m rs ex)
  let ?v = "fst (walk rs (submitted m w))"
  have ex: "is_Exception ex"
    using bulk bulk_raised(3) by blast
  have "status ?v = Running"
    using run by (simp add: status_walk submitted_def)
  moreover have "pulled (trace ?v) = pulled (trace w) @ [m]"
    by (simp add: pulled_walk submitted_def pulled_append)
  moreover have "logged_exceptions (trace ?v) = logged_exceptions (trace w)"
    by (simp add: logged_walk submitted_def logged_exceptions_append)
  moreover have "connections (trace ?v) = connections (trace w)"
    by (simp add: connections_walk submitted_def connections_append)
  ultimately show ?thesis
    using bulk_raised(1,5) ex
    by (simp add: except_clause_Exception pulled_append logged_exceptions_append
        connections_append)
next
  case (flushed m rs)
  let ?v = "fst (walk rs (submitted m w))"
  have "status ?v = Running"
    using run by (simp add: status_walk submitted_def)
  moreover have "pulled (trace ?v) = pulled (trace w) @ [m]"
    by (simp add: pulled_walk submitted_def pulled_append)
  moreover have "logged_exceptions (trace ?v) = logged_exceptions (trace w)"
    by (simp add: logged_walk submitted_def logged_exceptions_append)
  moreover have "connections (trace ?v) = connections (trace w)"
    by (simp add: connections_walk submitted_def connections_append)
  moreover have "set (ack_list ?v) \<subseteq> set (ack_list w) \<union> {m}"
    using set_mono_suffix [OF suffix_walk [of rs "submitted m w"]]
    by (auto simp: submitted_def)
  ultimately show ?thesis
    using flushed(1,5) by simp
qed

lemma get_raises_Cons: "get_raises t (g # q) = get_raises t [g] @ get_raises t q"
  by (cases "g t") simp_all

lemma deliveries_Cons: "deliveries t (g # q) = deliveries t [g] @ deliveries t q"
  by (cases "g t") simp_all

lemma worker_loop_survives:
  assumes "status w = Running"
    and "\<forall>ex \<in> set (get_raises t q). is_Exception ex"
    and "\<forall>n actions responses ex.
       es n actions = Responses responses (Some ex) \<longrightarrow> is_Exception ex"
    and "\<forall>m \<in> set (ack_list w) \<union> set (deliveries t q).
       \<forall>ex. ack_raises m = Some ex \<longrightarrow> is_Exception ex"
  shows "status (worker_loop bs es t q w) = Running \<and>
     pulled (trace (worker_loop bs es t q w)) = pulled (trace w) @ deliveries t q \<and>
     (\<exists>xs. logged_exceptions (trace (worker_loop bs es t q w)) =
             logged_exceptions (trace w) @ xs \<and>
           subseq (get_raises t q) xs \<and>
           connections (trace (worker_loop bs es t q w)) = connections (trace w) + length xs)"
  using assms
proof (induction q arbitrary: w)
  case Nil
  then show ?case by simp
next
  case (Cons g q)
  let ?w = "pull_step bs es t g w"
  have g1: "\<forall>ex \<in> set (get_raises t [g]). is_Exception ex"
    and q1: "\<forall>ex \<in> set (get_raises t q). is_Exception ex"
    using Cons.prems(2) get_raises_Cons [of t g q] by auto
  have a1: "\<forall>m \<in> set (ack_list w) \<union> set (deliveries t [g]).
       \<forall>ex. ack_raises m = Some ex \<longrightarrow> is_Exception ex"
    using Cons.prems(4) deliveries_Cons [of t g q] by auto
  note step = pull_step_survives [OF Cons.prems(1) g1 Cons.prems(3) a1, of bs]
  obtain xs where xs: "logged_exceptions (trace ?w) = logged_exceptions (trace w) @ xs"
    "subseq (get_raises t [g]) xs"
    "connections (trace ?w) = connections (trace w) + length xs"
    using step by blast
  have a2: "\<forall>m \<in> set (ack_list ?w) \<union> set (deliveries t q).
       \<forall>ex. ack_raises m = Some ex \<longrightarrow> is_Exception ex"
  proof
    fix m
    assume "m \<in> set (ack_list ?w) \<union> set (deliveries t q)"
    then have "m \<in> set (ack_list w) \<union> set (deliveries t (g # q))"
      using step deliveries_Cons [of t g q] by auto
    then show "\<forall>ex. ack_raises m = Some ex \<longrightarrow> is_Exception ex"
      using Cons.prems(4) by blast
  qed
  have run: "status ?w = Running"
    using step by blast
  note rest = Cons.IH [OF run q1 Cons.prems(3) a2]
  obtain ys where ys:
    "logged_exceptions (trace (worker_loop bs es t q ?w)) = logged_exceptions (trace ?w) @ ys"
    "subseq (get_raises t q) ys"
    "connections (trace (worker_loop bs es t q ?w)) = connections (trace ?w) + length ys"
    using rest by blast
  have loop: "worker_loop bs es t (g # q) w = worker_loop bs es t q ?w"
    using Cons.prems(1) by simp
  have "status (worker_loop bs es t (g # q) w) = Running"
    unfolding loop using rest by blast
  moreover have "pulled (trace (worker_loop bs es t (g # q) w)) =
      pulled (trace w) @ deliveries t (g # q)"
    unfolding loop using rest step deliveries_Cons [of t g q] by simp
  moreover have "logged_exceptions (trace (worker_loop bs es t (g # q) w)) =
      logged_exceptions (trace w) @ (xs @ ys)"
    unfolding loop using xs(1) ys(1) by simp
  moreover have "subseq (get_raises t (g # q)) (xs @ ys)"
    using xs(2) ys(2) get_raises_Cons [of t g q] by (simp add: list_emb_append_mono)
  moreover have "connections (trace (worker_loop bs es t (g # q) w)) =
      connections (trace w) + length (xs @ ys)"
    unfolding loop using xs(3) ys(3) by simp
  ultimately show ?case by blast
qed

lemma flush_to_es_survives:
  assumes "0 < bs" and "raises_only_Exceptions es t q (deliveries t q)"
  shows "status (flush_to_es bs es q t) = Running \<and>
     pulled (trace (flush_to_es bs es q t)) = deliveries t q \<and>
     subseq (get_raises t q) (logged_exceptions (trace (flush_to_es bs es q t))) \<and>
     connections (trace (flush_to_es bs es q t)) =
       Suc (length (logged_exceptions (trace (flush_to_es bs es q t))))"
proof -
  let ?w = "new_cycle fresh_worker"
  have w: "status ?w = Running" "ack_list ?w = []" "trace ?w = [CycleStart]"
    by (simp_all add: new_cycle_def fresh_worker_def)
  have "status (worker_loop bs es t q ?w) = Running \<and>
     pulled (trace (worker_loop bs es t q ?w)) = pulled (trace ?w) @ deliveries t q \<and>
     (\<exists>xs. logged_exceptions (trace (worker_loop bs es t q ?w)) =
             logged_exceptions (trace ?w) @ xs \<and>
           subseq (get_raises t q) xs \<and>
           connections (trace (worker_loop bs es t q ?w)) = connections (trace ?w) + length xs)"
    using assms(2) w by (intro worker_loop_survives) (simp_all add: raises_only_Exceptions_def)
  then show ?thesis
    using assms(1) w(3) by (auto simp: flush_to_es_def)
qed

subsection \<open>The pending list and the chunk\<close>




subsection \<open>Where acknowledgements come from\<close>

lemma acks_walk:
  "set (acked (trace (fst (walk rs w)))) \<union> set (ack_list (fst (walk rs w))) \<subseteq>
   set (acked (trace w)) \<union> set (ack_list w)"
proof (induction rs arbitrary: w)
  case Nil
  show ?case by simp
next
  case (Cons r rs)
  show ?case
  proof (cases "ack_list w")
    case Nil
    then show ?thesis by simp
  next
    case al: (Cons m rest)
    let ?w1 = "w\<lparr>ack_list := rest, trace := trace w @ [Popped m r]\<rparr>"
    let ?w2 = "?w1\<lparr>trace := trace ?w1 @ [Acked m]\<rparr>"
    show ?thesis
    proof (cases "r \<and> ack_raises m = None")
      case True
      have "walk (r # rs) w = walk rs ?w2"
        using al True by (simp add: Let_def)
      moreover have "set (acked (trace ?w2)) \<union> set (ack_list ?w2) \<subseteq>
          set (acked (trace w)) \<union> set (ack_list w)"
        using al by (auto simp: acked_append)
      ultimately show ?thesis
        using Cons.IH [of ?w2] by auto
    next
      case False
      show ?thesis
      proof (cases r)
        case True
        then show ?thesis
          using False al by (auto simp: Let_def acked_append)
      next
        case False
        have "walk (r # rs) w = walk rs ?w1"
          using al False by (simp add: Let_def)
        moreover have "set (acked (trace ?w1)) \<union> set (ack_list ?w1) \<subseteq>
            set (acked (trace w)) \<union> set (ack_list w)"
          using al by (auto simp: acked_append)
        ultimately show ?thesis
          using Cons.IH [of ?w1] by auto
      qed
    qed
  qed
qed

lemma acks_except:
  "set (acked (trace (except_clause ex w))) \<union> set (ack_list (except_clause ex w)) \<subseteq>
   set (acked (trace w)) \<union> set (ack_list w)"
  by (auto simp: except_clause_def new_cycle_def acked_append)

lemma acks_pull_step:
  "set (acked (trace (pull_step bs es t g w))) \<union> set (ack_list (pull_step bs es t g w)) \<subseteq>
   set (acked (trace w)) \<union> set (ack_list w) \<union> set (deliveries t [g])"
proof (cases "g t")
  case (GetRaises ex)
  then show ?thesis
    using acks_except [of ex w] by (simp add: pull_step_def get_queue_stream_def)
next
  case (Delivered m)
  let ?w1 = "w\<lparr>ack_list := ack_list w @ [m], trace := trace w @ [Pulled m]\<rparr>"
  let ?S = "set (acked (trace w)) \<union> set (ack_list w) \<union> {m}"
  obtain w2 rs raised where sb: "streaming_bulk bs es (payload m) ?w1 = (w2, Responses rs raised)"
    by (metis bulk_outcome.exhaust surj_pair)
  have w2: "set (acked (trace w2)) \<union> set (ack_list w2) \<subseteq> ?S"
    using sb by (auto simp: streaming_bulk_def Let_def acked_append split: if_splits)
  obtain w3 r where wk: "walk rs w2 = (w3, r)"
    by (cases "walk rs w2")
  have w3: "set (acked (trace w3)) \<union> set (ack_list w3) \<subseteq> ?S"
    using acks_walk [of rs w2] wk w2 by auto
  have w4: "set (acked (trace (except_clause ex w3))) \<union> set (ack_list (except_clause ex w3))
      \<subseteq> ?S" for ex
    using acks_except [of ex w3] w3 by blast
  have "set (acked (trace (pull_step bs es t g w))) \<union> set (ack_list (pull_step bs es t g w))
      \<subseteq> ?S"
    using Delivered sb wk w3 w4
    by (simp add: pull_step_def get_queue_stream_def split: option.splits)
  then show ?thesis
    using Delivered by simp
qed

lemma acks_worker_loop:
  "set (acked (trace (worker_loop bs es t q w))) \<union> set (ack_list (worker_loop bs es t q w)) \<subseteq>
   set (acked (trace w)) \<union> set (ack_list w) \<union> set (deliveries t q)"
proof (induction q arbitrary: w)
  case Nil
  show ?case by simp
next
  case (Cons g q)
  show ?case
  proof (cases "status w = Running")
    case True
    have d: "set (deliveries t (g # q)) = set (deliveries t [g]) \<union> set (deliveries t q)"
      by (cases "g t") simp_all
    have l: "worker_loop bs es t (g # q) w = worker_loop bs es t q (pull_step bs es t g w)"
      using True by simp
    show ?thesis
      unfolding l d
      using Cons.IH [of "pull_step bs es t g w"] acks_pull_step [of bs es t g w]
      by blast
  next
    case False
    then show ?thesis by auto
  qed
qed

subsection \<open>Encoding and publishing\<close>

lemma getitem_raises: "getitem d key = Inl ex \<Longrightarrow> is_Exception ex"
  by (auto simp: getitem_def split: json.splits option.splits)

lemma subscript_raises: "is_Exception e \<Longrightarrow> subscript (Inl e) key = Inl ex \<Longrightarrow> is_Exception ex"
  by simp

lemma tenant_raises:
  "subscript (getitem message ''meniscus'') ''tenant'' = Inl ex \<Longrightarrow> is_Exception ex"
  by (cases "getitem message ''meniscus''") (auto dest: getitem_raises)

lemma pattern_raises:
  assumes "subscript (subscript (getitem message ''meniscus'') ''correlation'') ''pattern'' = Inl ex"
  shows "is_Exception ex"
proof (cases "getitem message ''meniscus''")
  case (Inl e)
  then show ?thesis using assms by (auto dest: getitem_raises)
next
  case (Inr m)
  then show ?thesis
    using assms by (cases "getitem m ''correlation''") (auto dest: getitem_raises)
qed

lemma queue_index_request_cases:
  "queue_index_request uuid4 br index doc_type document ttl p =
     (case declare_raises br of
        Some ex \<Rightarrow> (p, Some ex)
      | None \<Rightarrow>
          (case publish_raises br of
             Some ex \<Rightarrow> (p\<lparr>uuid_calls := Suc (uuid_calls p)\<rparr>, Some ex)
           | None \<Rightarrow>
               (p\<lparr>uuid_calls := Suc (uuid_calls p),
                  es_queue := es_queue p @
                    [JObj [(''_index'', index), (''_type'', doc_type),
                       (''_id'', JStr (uuid4 (uuid_calls p))), (''_ttl'', ttl),
                       (''_source'', document)]]\<rparr>, None)))"
  by (simp add: queue_index_request_def Let_def split: option.splits)


lemma put_message_queue:
  "es_queue (fst (put_message TTL uuid4 br message p)) = es_queue p \<and>
     uuid_calls p \<le> uuid_calls (fst (put_message TTL uuid4 br message p)) \<or>
   uuid_calls (fst (put_message TTL uuid4 br message p)) = Suc (uuid_calls p) \<and>
     (\<exists>a. es_queue (fst (put_message TTL uuid4 br message p)) = es_queue p @ [a] \<and>
          action_id a = Some (JStr (uuid4 (uuid_calls p))))"
  by (cases "declare_raises br"; cases "publish_raises br")
    (auto simp: put_message_def put_message_except_def queue_index_request_cases
      split: sum.splits)

lemma put_message_ids:
  assumes "sorted_wrt (<) ks" and "\<forall>k \<in> set ks. k < uuid_calls p"
    and "map action_id (es_queue p) = map (\<lambda>k. Some (JStr (uuid4 k))) ks"
  shows "\<exists>ks'. sorted_wrt (<) ks' \<and>
     (\<forall>k \<in> set ks'. k < uuid_calls (fst (put_message TTL uuid4 br message p))) \<and>
     map action_id (es_queue (fst (put_message TTL uuid4 br message p))) =
       map (\<lambda>k. Some (JStr (uuid4 k))) ks'"
proof -
  let ?p = "fst (put_message TTL uuid4 br message p)"
  consider (same) "es_queue ?p = es_queue p" "uuid_calls p \<le> uuid_calls ?p"
    | (more) a where "uuid_calls ?p = Suc (uuid_calls p)" "es_queue ?p = es_queue p @ [a]"
        "action_id a = Some (JStr (uuid4 (uuid_calls p)))"
    using put_message_queue [of TTL uuid4 br message p] by blast
  then show ?thesis
  proof cases
    case same
    have "\<forall>k \<in> set ks. k < uuid_calls ?p"
      using assms(2) same(2) by auto
    then show ?thesis
      using assms same(1) by metis
  next
    case more
    let ?ks = "ks @ [uuid_calls p]"
    have "sorted_wrt (<) ?ks"
      using assms(1,2) by (simp add: sorted_wrt_append)
    moreover have "\<forall>k \<in> set ?ks. k < uuid_calls ?p"
      using assms(2) more(1) by auto
    moreover have "map action_id (es_queue ?p) = map (\<lambda>k. Some (JStr (uuid4 k))) ?ks"
      using assms(3) more(2,3) by simp
    ultimately show ?thesis by blast
  qed
qed

lemma put_messages_ids:
  assumes "sorted_wrt (<) ks" and "\<forall>k \<in> set ks. k < uuid_calls p"
    and "map action_id (es_queue p) = map (\<lambda>k. Some (JStr (uuid4 k))) ks"
  shows "\<exists>ks'. sorted_wrt (<) ks' \<and>
     map action_id (es_queue (put_messages TTL uuid4 calls p)) =
       map (\<lambda>k. Some (JStr (uuid4 k))) ks'"
  using assms
proof (induction calls arbitrary: p ks)
  case Nil
  then show ?case by auto
next
  case (Cons c calls)
  obtain br message where c: "c = (br, message)"
    by (cases c)
  obtain ks' where "sorted_wrt (<) ks'"
    "\<forall>k \<in> set ks'. k < uuid_calls (fst (put_message TTL uuid4 br message p))"
    "map action_id (es_queue (fst (put_message TTL uuid4 br message p))) =
       map (\<lambda>k. Some (JStr (uuid4 k))) ks'"
    using put_message_ids [OF Cons.prems, of TTL br message] by blast
  then show ?case
    using Cons.IH [of ks' "fst (put_message TTL uuid4 br message p)"] by (simp add: c)
qed

lemma put_messages_distinct_ids:
  assumes "inj uuid4"
  shows "distinct (map action_id (es_queue (put_messages TTL uuid4 calls new_publisher)))"
proof -
  obtain ks where ks: "sorted_wrt (<) ks"
    "map action_id (es_queue (put_messages TTL uuid4 calls new_publisher)) =
       map (\<lambda>k. Some (JStr (uuid4 k))) ks"
    using put_messages_ids [of "[]" new_publisher uuid4 TTL calls]
    by (auto simp: new_publisher_def)
  have "distinct ks"
    using ks(1) by (simp add: strict_sorted_iff)
  moreover have "inj_on (\<lambda>k. Some (JStr (uuid4 k))) (set ks)"
    using assms by (auto simp: inj_on_def dest: injD)
  ultimately show ?thesis
    by (simp add: ks(2) distinct_map)
qed


lemma inj_uuid_of_call: "inj uuid_of_call"
proof (rule injI)
  fix x y
  assume "uuid_of_call x = uuid_of_call y"
  then have "length (uuid_of_call x) = length (uuid_of_call y)"
    by simp
  then show "x = y"
    by (simp add: uuid_of_call_def)
qed


section \<open>The claims\<close>

text \<open>
  Claim C1. A worker at a chunk boundary pulls the messages \<open>ms\<close> of one chunk and the
  bulker yields the responses \<open>rs\<close> for it. For each response, in order, the oldest
  entry of \<^verbatim>\<open>ack_list\<close> is popped, and it is acknowledged if and only if the flag of that
  response is true (\<open>walk_events\<close>); the entries beyond the responses stay on the list.
  The witness is the scenario of the three actions A, B, C with the results success,
  failure, success: A and C are acknowledged and B is not.
\<close>

theorem flush_acks_exactly_the_successes:
  assumes "status w = Running" and "chunk w = []" and "ms \<noteq> []"
    and "es (bulk_calls w) (map payload ms) = Responses rs None"
    and "length rs \<le> length (ack_list w) + length ms"
    and "\<forall>m \<in> set (take (length rs) (ack_list w @ ms)). ack_raises m = None"
  shows "worker_loop (length ms) es t (map deliver ms) w =
     w\<lparr>ack_list := drop (length rs) (ack_list w @ ms), chunk := [],
       bulk_calls := Suc (bulk_calls w),
       trace := trace w @ map Pulled ms @ BulkWrite (map payload ms) #
                concat (map walk_events (zip (ack_list w @ ms) rs))\<rparr>"
  using assms by (rule one_chunk)

theorem flush_acks_exactly_the_successes_witness:
  "flush_to_es 3 ok_fail_ok [deliver msg_A, deliver msg_B, deliver msg_C] 60 =
     \<lparr>ack_list = [], chunk = [], bulk_calls = 1, status = Running,
      trace = [CycleStart, Pulled msg_A, Pulled msg_B, Pulled msg_C,
               BulkWrite [JStr ''A'', JStr ''B'', JStr ''C''],
               Popped msg_A True, Acked msg_A, Popped msg_B False,
               Popped msg_C True, Acked msg_C]\<rparr>"
proof -
  let ?w = "new_cycle fresh_worker"
  let ?ms = "[msg_A, msg_B, msg_C]"
  let ?rs = "[True, False, True]"
  have "worker_loop (length ?ms) ok_fail_ok 60 (map deliver ?ms) ?w =
     ?w\<lparr>ack_list := drop (length ?rs) (ack_list ?w @ ?ms), chunk := [],
       bulk_calls := Suc (bulk_calls ?w),
       trace := trace ?w @ map Pulled ?ms @ BulkWrite (map payload ?ms) #
                concat (map walk_events (zip (ack_list ?w @ ?ms) ?rs))\<rparr>"
    by (rule flush_acks_exactly_the_successes)
      (simp_all add: new_cycle_def fresh_worker_def ok_fail_ok_def msg_A_def msg_B_def
        msg_C_def)
  then show ?thesis
    by (simp add: flush_to_es_def new_cycle_def fresh_worker_def numeral_3_eq_3
        msg_A_def msg_B_def msg_C_def del: worker_loop.simps)
qed

text \<open>
  Claim C2, as stated, fails: with the responses success, failure, success for the chunk
  A, B, C, the entry B is popped for the failure and left unacknowledged, and the walk
  goes on: C, the entry after it, is acknowledged.
\<close>

theorem third_entry_acked_counterexample:
  "Popped msg_B False \<in> set (trace (flush_to_es 3 ok_fail_ok
       [deliver msg_A, deliver msg_B, deliver msg_C] 60)) \<and>
   msg_C \<in> set (acked (trace (flush_to_es 3 ok_fail_ok
       [deliver msg_A, deliver msg_B, deliver msg_C] 60)))"
  by (simp add: flush_to_es_def new_cycle_def fresh_worker_def ok_fail_ok_def
      msg_A_def msg_B_def msg_C_def deliver_def pull_step_def get_queue_stream_def
      streaming_bulk_def Let_def)

text \<open>
  Claim C2, amended. For a worker that pulls \<open>m1\<close>, \<open>m2\<close>, \<open>m3\<close> and submits them as one
  chunk, the acknowledgements occur in pull order, which is the order of the responses,
  and each message is acknowledged exactly when its own response reports success: a
  failure at position 2 leaves \<open>m2\<close> unacknowledged and has no effect on \<open>m3\<close>.
\<close>

theorem acks_in_pull_order:
  assumes "ack_raises m1 = None" and "ack_raises m2 = None" and "ack_raises m3 = None"
    and "es 0 [payload m1, payload m2, payload m3] = Responses [r1, r2, r3] None"
  shows "acked (trace (flush_to_es 3 es [deliver m1, deliver m2, deliver m3] t)) =
     (if r1 then [m1] else []) @ (if r2 then [m2] else []) @ (if r3 then [m3] else [])"
proof -
  let ?w = "new_cycle fresh_worker"
  have three: "length [m1, m2, m3] = 3"
    by simp
  have "worker_loop (length [m1, m2, m3]) es t (map deliver [m1, m2, m3]) ?w =
    ?w\<lparr>ack_list := drop (length [r1, r2, r3]) (ack_list ?w @ [m1, m2, m3]), chunk := [],
       bulk_calls := Suc (bulk_calls ?w),
       trace := trace ?w @ map Pulled [m1, m2, m3] @ BulkWrite (map payload [m1, m2, m3]) #
         concat (map walk_events (zip (ack_list ?w @ [m1, m2, m3]) [r1, r2, r3]))\<rparr>"
    using assms by (intro one_chunk) (simp_all add: new_cycle_def fresh_worker_def)
  then have "acked (trace (worker_loop 3 es t [deliver m1, deliver m2, deliver m3] ?w)) =
     (if r1 then [m1] else []) @ (if r2 then [m2] else []) @ (if r3 then [m3] else [])"
    unfolding three
    by (simp add: new_cycle_def fresh_worker_def acked_append del: worker_loop.simps)
  then show ?thesis
    by (simp add: flush_to_es_def del: worker_loop.simps)
qed

theorem acks_in_pull_order_witness:
  "acked (trace (flush_to_es 3 ok_fail_ok [deliver msg_A, deliver msg_B, deliver msg_C] 60)) =
     [msg_A, msg_C]"
proof -
  have "acked (trace (flush_to_es 3 ok_fail_ok [deliver msg_A, deliver msg_B, deliver msg_C] 60)) =
     (if True then [msg_A] else []) @ (if False then [msg_B] else []) @
     (if True then [msg_C] else [])"
    by (rule acks_in_pull_order)
      (simp_all add: ok_fail_ok_def msg_A_def msg_B_def msg_C_def)
  then show ?thesis
    by simp
qed




text \<open>
  Claim C4. In a worker with a positive chunk size whose environment raises nothing
  but instances of \<^verbatim>\<open>Exception\<close> (in the queue pull, in the bulk helper, in \<^verbatim>\<open>ack\<close>), the
  loop never ends: after the whole queue script the worker is still running, it has
  pulled every message the queue delivered, it has logged every exception the queue
  raised, and it has created one stream, with a broker connection of its own, at the
  start and one more after each logged exception. Whatever the environment does, an
  exception that has ended \<^verbatim>\<open>flush_to_es\<close> is not an \<^verbatim>\<open>Exception\<close>: it is \<^verbatim>\<open>KeyboardInterrupt\<close> or
  \<^verbatim>\<open>SystemExit\<close>, the ways a shutdown reaches the loop. And at each of the three places the
  loop, having met an \<^verbatim>\<open>Exception\<close>, goes on with the rest of the queue from the state in
  which the exception was raised, with the exception logged, a new cycle begun, and the
  pending list and the chunk empty.
\<close>

theorem exceptions_restart_the_cycle:
  "(0 < bs \<longrightarrow> raises_only_Exceptions es t q (deliveries t q) \<longrightarrow>
      status (flush_to_es bs es q t) = Running \<and>
      pulled (trace (flush_to_es bs es q t)) = deliveries t q \<and>
      subseq (get_raises t q) (logged_exceptions (trace (flush_to_es bs es q t))) \<and>
      connections (trace (flush_to_es bs es q t)) =
        Suc (length (logged_exceptions (trace (flush_to_es bs es q t))))) \<and>
   (status (flush_to_es bs es q t) = Terminated ex \<longrightarrow> \<not> is_Exception ex) \<and>
   (status va = Running \<longrightarrow> is_Exception exa \<longrightarrow>
      get_queue_stream t ga va = (va', Inl exa) \<longrightarrow>
      worker_loop bs es t (ga # qa) va =
        worker_loop bs es t qa
          (va'\<lparr>ack_list := [], chunk := [],
             trace := trace va' @ [Logged exa, CycleStart]\<rparr>)) \<and>
   (status vb = Running \<longrightarrow> is_Exception exb \<longrightarrow>
      get_queue_stream t gb vb = (pulled_b, Inr ab) \<longrightarrow>
      streaming_bulk bs es ab pulled_b = (sent_b, Responses rsb (Some exb)) \<longrightarrow>
      walk rsb sent_b = (walked_b, None) \<longrightarrow>
      worker_loop bs es t (gb # qb) vb =
        worker_loop bs es t qb
          (walked_b\<lparr>ack_list := [], chunk := [],
             trace := trace walked_b @ [Logged exb, CycleStart]\<rparr>)) \<and>
   (status vc = Running \<longrightarrow> is_Exception exc \<longrightarrow>
      get_queue_stream t gc vc = (pulled_c, Inr ac) \<longrightarrow>
      streaming_bulk bs es ac pulled_c = (sent_c, Responses rsc raised) \<longrightarrow>
      walk rsc sent_c = (walked_c, Some exc) \<longrightarrow>
      worker_loop bs es t (gc # qc) vc =
        worker_loop bs es t qc
          (walked_c\<lparr>ack_list := [], chunk := [],
             trace := trace walked_c @ [Logged exc, CycleStart]\<rparr>))"
proof (intro conjI impI)
  assume "0 < bs" "raises_only_Exceptions es t q (deliveries t q)"
  then have all: "status (flush_to_es bs es q t) = Running \<and>
     pulled (trace (flush_to_es bs es q t)) = deliveries t q \<and>
     subseq (get_raises t q) (logged_exceptions (trace (flush_to_es bs es q t))) \<and>
     connections (trace (flush_to_es bs es q t)) =
       Suc (length (logged_exceptions (trace (flush_to_es bs es q t))))"
    by (rule flush_to_es_survives)
  show "status (flush_to_es bs es q t) = Running"
    using all by blast
  show "pulled (trace (flush_to_es bs es q t)) = deliveries t q"
    using all by blast
  show "subseq (get_raises t q) (logged_exceptions (trace (flush_to_es bs es q t)))"
    using all by blast
  show "connections (trace (flush_to_es bs es q t)) =
      Suc (length (logged_exceptions (trace (flush_to_es bs es q t))))"
    using all by blast
next
  assume "status (flush_to_es bs es q t) = Terminated ex"
  then show "\<not> is_Exception ex"
    using survives_flush_to_es [of bs es q t] by (simp add: survives_def)
next
  assume "status va = Running" "is_Exception exa" "get_queue_stream t ga va = (va', Inl exa)"
  then show "worker_loop bs es t (ga # qa) va =
      worker_loop bs es t qa
        (va'\<lparr>ack_list := [], chunk := [], trace := trace va' @ [Logged exa, CycleStart]\<rparr>)"
    by (simp add: pull_step_def except_clause_def new_cycle_def)
next
  assume "status vb = Running" "is_Exception exb"
    "get_queue_stream t gb vb = (pulled_b, Inr ab)"
    "streaming_bulk bs es ab pulled_b = (sent_b, Responses rsb (Some exb))"
    "walk rsb sent_b = (walked_b, None)"
  then show "worker_loop bs es t (gb # qb) vb =
      worker_loop bs es t qb
        (walked_b\<lparr>ack_list := [], chunk := [],
           trace := trace walked_b @ [Logged exb, CycleStart]\<rparr>)"
    by (simp add: pull_step_def except_clause_def new_cycle_def)
next
  assume "status vc = Running" "is_Exception exc"
    "get_queue_stream t gc vc = (pulled_c, Inr ac)"
    "streaming_bulk bs es ac pulled_c = (sent_c, Responses rsc raised)"
    "walk rsc sent_c = (walked_c, Some exc)"
  then show "worker_loop bs es t (gc # qc) vc =
      worker_loop bs es t qc
        (walked_c\<lparr>ack_list := [], chunk := [],
           trace := trace walked_c @ [Logged exc, CycleStart]\<rparr>)"
    by (simp add: pull_step_def except_clause_def new_cycle_def)
qed

theorem exceptions_restart_the_cycle_witness:
  "raises_only_Exceptions all_ok 5
     [deliver msg_A, timeout_elapses, deliver msg_B, deliver msg_D] [msg_A, msg_B, msg_D] \<and>
   flush_to_es 2 all_ok [deliver msg_A, timeout_elapses, deliver msg_B, deliver msg_D] 5 =
     \<lparr>ack_list = [], chunk = [], bulk_calls = 1, status = Running,
      trace = [CycleStart, Pulled msg_A, Logged Empty, CycleStart, Pulled msg_B, Pulled msg_D,
               BulkWrite [JStr ''B'', JStr ''D''], Popped msg_B True, Acked msg_B,
               Popped msg_D True, Logged ConnectionError, CycleStart]\<rparr> \<and>
   subseq [Empty]
     (logged_exceptions (trace (flush_to_es 2 all_ok
        [deliver msg_A, timeout_elapses, deliver msg_B, deliver msg_D] 5))) \<and>
   connections (trace (flush_to_es 2 all_ok
        [deliver msg_A, timeout_elapses, deliver msg_B, deliver msg_D] 5)) = 3 \<and>
   status (flush_to_es 2 all_ok [deliver msg_A, interrupted] 5) = Terminated KeyboardInterrupt \<and>
   \<not> is_Exception KeyboardInterrupt \<and>
   worker_loop 2 all_ok 5 [timeout_elapses, deliver msg_B] one_pending =
     \<lparr>ack_list = [msg_B], chunk = [JStr ''B''], bulk_calls = 0, status = Running,
      trace = [CycleStart, Pulled msg_A, Logged Empty, CycleStart, Pulled msg_B]\<rparr> \<and>
   worker_loop 2 backend_down 5 [deliver msg_B] one_pending =
     \<lparr>ack_list = [], chunk = [], bulk_calls = 1, status = Running,
      trace = [CycleStart, Pulled msg_A, Pulled msg_B, BulkWrite [JStr ''A'', JStr ''B''],
               Logged ConnectionError, CycleStart]\<rparr> \<and>
   worker_loop 2 all_ok 5 [deliver msg_D] one_pending =
     \<lparr>ack_list = [], chunk = [], bulk_calls = 1, status = Running,
      trace = [CycleStart, Pulled msg_A, Pulled msg_D, BulkWrite [JStr ''A'', JStr ''D''],
               Popped msg_A True, Acked msg_A, Popped msg_D True,
               Logged ConnectionError, CycleStart]\<rparr>"
proof -
  let ?q = "[deliver msg_A, timeout_elapses, deliver msg_B, deliver msg_D]"
  let ?R = "flush_to_es 2 all_ok ?q 5"
  have dq: "deliveries 5 ?q = [msg_A, msg_B, msg_D]"
    by (simp add: deliver_def timeout_elapses_def)
  have gq: "get_raises 5 ?q = [Empty]"
    by (simp add: deliver_def timeout_elapses_def)
  have env: "raises_only_Exceptions all_ok 5 ?q [msg_A, msg_B, msg_D]"
    unfolding raises_only_Exceptions_def gq
    by (simp add: all_ok_def msg_A_def msg_B_def msg_D_def)
  have env': "raises_only_Exceptions all_ok 5 ?q (deliveries 5 ?q)"
    unfolding dq by (rule env)
  have whole: "status ?R = Running \<and> pulled (trace ?R) = deliveries 5 ?q \<and>
      subseq (get_raises 5 ?q) (logged_exceptions (trace ?R)) \<and>
      connections (trace ?R) = Suc (length (logged_exceptions (trace ?R)))"
    by (rule exceptions_restart_the_cycle [THEN conjunct1, rule_format]) (simp, rule env')
  have R: "?R =
     \<lparr>ack_list = [], chunk = [], bulk_calls = 1, status = Running,
      trace = [CycleStart, Pulled msg_A, Logged Empty, CycleStart, Pulled msg_B, Pulled msg_D,
               BulkWrite [JStr ''B'', JStr ''D''], Popped msg_B True, Acked msg_B,
               Popped msg_D True, Logged ConnectionError, CycleStart]\<rparr>"
    by (simp add: flush_to_es_def new_cycle_def fresh_worker_def deliver_def
        timeout_elapses_def pull_step_def get_queue_stream_def streaming_bulk_def Let_def
        except_clause_def all_ok_def msg_A_def msg_B_def msg_D_def)
  have sub: "subseq [Empty] (logged_exceptions (trace ?R))"
    using whole unfolding gq by blast
  have "connections (trace ?R) = Suc (length (logged_exceptions (trace ?R)))"
    using whole by blast
  then have conn: "connections (trace ?R) = 3"
    unfolding R by simp
  have run: "status (flush_to_es 2 all_ok [deliver msg_A, interrupted] 5) =
      Terminated KeyboardInterrupt"
    by (simp add: flush_to_es_def new_cycle_def fresh_worker_def deliver_def interrupted_def
        pull_step_def get_queue_stream_def streaming_bulk_def Let_def except_clause_def)
  have d: "\<not> is_Exception KeyboardInterrupt"
    using exceptions_restart_the_cycle
      [where bs = 2 and es = all_ok and q = "[deliver msg_A, interrupted]" and t = 5
        and ex = KeyboardInterrupt, THEN conjunct2, THEN conjunct1] run
    by simp
  let ?ub = "fst (get_queue_stream 5 (deliver msg_B) one_pending)"
  let ?sb = "fst (streaming_bulk 2 backend_down (JStr ''B'') ?ub)"
  let ?uc = "fst (get_queue_stream 5 (deliver msg_D) one_pending)"
  let ?sc = "fst (streaming_bulk 2 all_ok (JStr ''D'') ?uc)"
  let ?wc = "fst (walk [True, True] ?sc)"
  have a: "worker_loop 2 all_ok 5 (timeout_elapses # [deliver msg_B]) one_pending =
      worker_loop 2 all_ok 5 [deliver msg_B]
        (one_pending\<lparr>ack_list := [], chunk := [],
           trace := trace one_pending @ [Logged Empty, CycleStart]\<rparr>)"
    using exceptions_restart_the_cycle
      [where bs = 2 and es = all_ok and t = 5 and exa = Empty and ga = timeout_elapses
        and va = one_pending and va' = one_pending and qa = "[deliver msg_B]",
        THEN conjunct2, THEN conjunct2, THEN conjunct1]
    by (simp add: get_queue_stream_def timeout_elapses_def one_pending_def
        del: worker_loop.simps)
  have b: "worker_loop 2 backend_down 5 (deliver msg_B # []) one_pending =
      worker_loop 2 backend_down 5 []
        (?sb\<lparr>ack_list := [], chunk := [],
           trace := trace ?sb @ [Logged ConnectionError, CycleStart]\<rparr>)"
    using exceptions_restart_the_cycle
      [where bs = 2 and es = backend_down and t = 5 and exb = ConnectionError
        and gb = "deliver msg_B" and vb = one_pending and pulled_b = ?ub
        and ab = "JStr ''B''" and sent_b = ?sb and rsb = "[]" and walked_b = ?sb
        and qb = "[]",
        THEN conjunct2, THEN conjunct2, THEN conjunct2, THEN conjunct1]
    by (simp add: get_queue_stream_def streaming_bulk_def deliver_def backend_down_def
        one_pending_def msg_B_def Let_def del: worker_loop.simps)
  have c: "worker_loop 2 all_ok 5 (deliver msg_D # []) one_pending =
      worker_loop 2 all_ok 5 []
        (?wc\<lparr>ack_list := [], chunk := [],
           trace := trace ?wc @ [Logged ConnectionError, CycleStart]\<rparr>)"
    using exceptions_restart_the_cycle
      [where bs = 2 and es = all_ok and t = 5 and exc = ConnectionError
        and gc = "deliver msg_D" and vc = one_pending and pulled_c = ?uc
        and ac = "JStr ''D''" and sent_c = ?sc and rsc = "[True, True]" and raised = None
        and walked_c = ?wc and qc = "[]",
        THEN conjunct2, THEN conjunct2, THEN conjunct2, THEN conjunct2]
    by (simp add: get_queue_stream_def streaming_bulk_def deliver_def all_ok_def
        one_pending_def msg_A_def msg_D_def Let_def del: worker_loop.simps)
  have a': "worker_loop 2 all_ok 5 [timeout_elapses, deliver msg_B] one_pending =
     \<lparr>ack_list = [msg_B], chunk = [JStr ''B''], bulk_calls = 0, status = Running,
      trace = [CycleStart, Pulled msg_A, Logged Empty, CycleStart, Pulled msg_B]\<rparr>"
    unfolding a
    by (simp add: one_pending_def deliver_def pull_step_def get_queue_stream_def
        streaming_bulk_def Let_def msg_B_def)
  have b': "worker_loop 2 backend_down 5 [deliver msg_B] one_pending =
     \<lparr>ack_list = [], chunk = [], bulk_calls = 1, status = Running,
      trace = [CycleStart, Pulled msg_A, Pulled msg_B, BulkWrite [JStr ''A'', JStr ''B''],
               Logged ConnectionError, CycleStart]\<rparr>"
    unfolding b
    by (simp add: get_queue_stream_def streaming_bulk_def deliver_def backend_down_def
        one_pending_def msg_B_def Let_def)
  have c': "worker_loop 2 all_ok 5 [deliver msg_D] one_pending =
     \<lparr>ack_list = [], chunk = [], bulk_calls = 1, status = Running,
      trace = [CycleStart, Pulled msg_A, Pulled msg_D, BulkWrite [JStr ''A'', JStr ''D''],
               Popped msg_A True, Acked msg_A, Popped msg_D True,
               Logged ConnectionError, CycleStart]\<rparr>"
    unfolding c
    by (simp add: get_queue_stream_def streaming_bulk_def deliver_def all_ok_def
        one_pending_def msg_A_def msg_D_def Let_def)
  show ?thesis
    using env R sub conn run d a' b' c' by blast
qed

text \<open>
  Claim C5, as stated, fails: a pull that times out is handled as every exception is.
  A worker that has pulled A and waits for the rest of its chunk meets a timeout: the
  exception is logged, and the pending entry A is gone from the list without having
  been acknowledged.
\<close>

theorem timeout_is_logged_counterexample:
  "Logged Empty \<in> set (trace (flush_to_es 2 all_ok [deliver msg_A, timeout_elapses] 5)) \<and>
   msg_A \<in> set (pulled (trace (flush_to_es 2 all_ok [deliver msg_A] 5))) \<and>
   ack_list (flush_to_es 2 all_ok [deliver msg_A] 5) = [msg_A] \<and>
   ack_list (flush_to_es 2 all_ok [deliver msg_A, timeout_elapses] 5) = [] \<and>
   acked (trace (flush_to_es 2 all_ok [deliver msg_A, timeout_elapses] 5)) = []"
  by (simp add: flush_to_es_def new_cycle_def fresh_worker_def deliver_def
      timeout_elapses_def pull_step_def get_queue_stream_def streaming_bulk_def Let_def
      except_clause_def)

text \<open>
  Claim C5, amended. When the pull times out, nothing is appended to \<^verbatim>\<open>ack_list\<close>, the
  stream yields no value and no bulk write takes place; the exception is logged by the
  \<^verbatim>\<open>except\<close> clause and a new cycle begins, with an empty \<^verbatim>\<open>ack_list\<close> and an empty chunk,
  in which the next pull follows at once.
\<close>

theorem timeout_restarts_the_cycle:
  assumes "status w = Running" and "g t = GetRaises Empty"
  shows "worker_loop bs es t (g # q) w =
     worker_loop bs es t q
       (w\<lparr>ack_list := [], chunk := [], trace := trace w @ [Logged Empty, CycleStart]\<rparr>)"
  using assms
  by (simp add: pull_step_def get_queue_stream_def except_clause_def new_cycle_def)

theorem timeout_restarts_the_cycle_witness:
  "worker_loop 2 all_ok 5 [timeout_elapses, deliver msg_B] one_pending =
     \<lparr>ack_list = [msg_B], chunk = [JStr ''B''], bulk_calls = 0, status = Running,
      trace = [CycleStart, Pulled msg_A, Logged Empty, CycleStart, Pulled msg_B]\<rparr>"
proof -
  have "worker_loop 2 all_ok 5 (timeout_elapses # [deliver msg_B]) one_pending =
     worker_loop 2 all_ok 5 [deliver msg_B]
       (one_pending\<lparr>ack_list := [], chunk := [],
          trace := trace one_pending @ [Logged Empty, CycleStart]\<rparr>)"
    by (rule timeout_restarts_the_cycle)
      (simp_all add: one_pending_def timeout_elapses_def)
  then show ?thesis
    by (simp add: one_pending_def deliver_def pull_step_def get_queue_stream_def
        streaming_bulk_def Let_def msg_B_def)
qed

text \<open>
  Claim C10. When an \<^verbatim>\<open>Exception\<close> reaches the \<^verbatim>\<open>except\<close> clause, the next cycle starts
  with an empty \<^verbatim>\<open>ack_list\<close>: the entries pending at that moment are dropped. Whatever
  the worker acknowledges afterwards was acknowledged before or is delivered to it by a
  later pull, so an entry of the old list is not acknowledged unless the broker delivers
  it again. And at every moment of a run the acknowledgements of the current cycle are
  of messages popped in that cycle for a response reporting success, those popped being
  the first of the messages pulled in that same cycle.
\<close>

theorem restart_abandons_pending:
  "(is_Exception ex \<longrightarrow>
      except_clause ex w =
        w\<lparr>ack_list := [], chunk := [], trace := trace w @ [Logged ex, CycleStart]\<rparr>) \<and>
   set (acked (trace (worker_loop bs es t q (except_clause ex w)))) \<subseteq>
     set (acked (trace w)) \<union> set (deliveries t q) \<and>
   (\<forall>p. prefix p (trace (flush_to_es bs es q t)) \<longrightarrow> ack_justified p)"
proof (intro conjI impI)
  assume "is_Exception ex"
  then show "except_clause ex w =
      w\<lparr>ack_list := [], chunk := [], trace := trace w @ [Logged ex, CycleStart]\<rparr>"
    by (simp add: except_clause_def new_cycle_def)
next
  show "set (acked (trace (worker_loop bs es t q (except_clause ex w)))) \<subseteq>
      set (acked (trace w)) \<union> set (deliveries t q)"
  proof (cases "is_Exception ex")
    case True
    then have "set (acked (trace (except_clause ex w))) \<union>
        set (ack_list (except_clause ex w)) \<subseteq> set (acked (trace w))"
      by (auto simp: except_clause_def new_cycle_def acked_append)
    then show ?thesis
      using acks_worker_loop [of bs es t q "except_clause ex w"] by blast
  next
    case False
    then have "worker_loop bs es t q (except_clause ex w) = except_clause ex w"
      by (intro worker_loop_stopped) (simp add: except_clause_def)
    then show ?thesis
      using False by (simp add: except_clause_def)
  qed
next
  show "\<forall>p. prefix p (trace (flush_to_es bs es q t)) \<longrightarrow> ack_justified p"
    using cycle_inv_flush_to_es [of bs es q t] by (simp add: cycle_inv_def)
qed

theorem restart_abandons_pending_witness:
  "except_clause ConnectionError one_pending =
     \<lparr>ack_list = [], chunk = [], bulk_calls = 0, status = Running,
      trace = [CycleStart, Pulled msg_A, Logged ConnectionError, CycleStart]\<rparr> \<and>
   set (acked (trace (worker_loop 2 all_ok 5 [deliver msg_B, deliver msg_C]
       (except_clause ConnectionError one_pending)))) \<subseteq> {msg_B, msg_C} \<and>
   msg_A \<notin> {msg_B, msg_C} \<and>
   prefix [CycleStart, Pulled msg_A, Pulled msg_B, BulkWrite [JStr ''A'', JStr ''B''],
           Popped msg_A True, Acked msg_A]
     (trace (flush_to_es 2 all_ok [deliver msg_A, deliver msg_B] 5)) \<and>
   ack_justified [CycleStart, Pulled msg_A, Pulled msg_B, BulkWrite [JStr ''A'', JStr ''B''],
           Popped msg_A True, Acked msg_A]"
proof -
  let ?p = "[CycleStart, Pulled msg_A, Pulled msg_B, BulkWrite [JStr ''A'', JStr ''B''],
           Popped msg_A True, Acked msg_A]"
  have a: "except_clause ConnectionError one_pending =
      one_pending\<lparr>ack_list := [], chunk := [],
        trace := trace one_pending @ [Logged ConnectionError, CycleStart]\<rparr>"
    using restart_abandons_pending
      [where ex = ConnectionError and w = one_pending, THEN conjunct1]
    by simp
  have b: "set (acked (trace (worker_loop 2 all_ok 5 [deliver msg_B, deliver msg_C]
       (except_clause ConnectionError one_pending)))) \<subseteq>
     set (acked (trace one_pending)) \<union> set (deliveries 5 [deliver msg_B, deliver msg_C])"
    by (rule restart_abandons_pending [THEN conjunct2, THEN conjunct1])
  have pre: "prefix ?p (trace (flush_to_es 2 all_ok [deliver msg_A, deliver msg_B] 5))"
    by (simp add: flush_to_es_def new_cycle_def fresh_worker_def deliver_def pull_step_def
        get_queue_stream_def streaming_bulk_def Let_def all_ok_def msg_A_def msg_B_def)
  have c: "ack_justified ?p"
    using restart_abandons_pending
      [where bs = 2 and es = all_ok and q = "[deliver msg_A, deliver msg_B]" and t = 5,
        THEN conjunct2, THEN conjunct2]
      pre
    by blast
  have d: "msg_A \<notin> {msg_B, msg_C}"
    by (simp add: msg_A_def msg_B_def msg_C_def)
  have a': "except_clause ConnectionError one_pending =
     \<lparr>ack_list = [], chunk = [], bulk_calls = 0, status = Running,
      trace = [CycleStart, Pulled msg_A, Logged ConnectionError, CycleStart]\<rparr>"
    unfolding a by (simp add: one_pending_def)
  have b': "set (acked (trace (worker_loop 2 all_ok 5 [deliver msg_B, deliver msg_C]
       (except_clause ConnectionError one_pending)))) \<subseteq> {msg_B, msg_C}"
    using b by (simp add: one_pending_def deliver_def)
  show ?thesis
    using a' b' c d pre by blast
qed

text \<open>
  Claim C6, as stated, fails. A document without the tenant makes the lookup raise
  \<^verbatim>\<open>KeyError\<close>; \<^verbatim>\<open>put_message\<close> logs it and asks for the task to be run again, and no
  error reaches the caller. And the same happens to a document that has both fields
  when the broker cannot be reached: the task does perform I/O.
\<close>

theorem malformed_document_is_retried_counterexample:
  "put_message (JStr ''30d'') uuid_of_call reliable_broker doc_without_tenant new_publisher =
     (\<lparr>uuid_calls = 0, es_queue = [], logged = [KeyError]\<rparr>, RetryRequested) \<and>
   put_message (JStr ''30d'') uuid_of_call unreachable_broker correlated_doc new_publisher =
     (\<lparr>uuid_calls = 0, es_queue = [], logged = [ConnectionError]\<rparr>, RetryRequested)"
  by (simp add: put_message_def put_message_except_def getitem_def doc_without_tenant_def
      correlated_doc_def new_publisher_def reliable_broker_def unreachable_broker_def
      queue_index_request_def)

text \<open>
  Claim C6, amended. One run of \<^verbatim>\<open>put_message\<close> ends in a request to retry the task
  exactly when an \<^verbatim>\<open>Exception\<close> is raised in it: a required field
  (\<^verbatim>\<open>meniscus.tenant\<close> or \<^verbatim>\<open>meniscus.correlation.pattern\<close>) cannot be read from
  the document, or declaring the exchange or publishing raises. The exception is logged
  and nothing is put on the queue.
\<close>

theorem put_message_retries_on_exception:
  "(snd (put_message TTL uuid4 br message p) = RetryRequested \<longleftrightarrow>
      isl (subscript (getitem message ''meniscus'') ''tenant'') \<or>
      isl (subscript (subscript (getitem message ''meniscus'') ''correlation'') ''pattern'') \<or>
      (\<exists>ex. is_Exception ex \<and>
         (declare_raises br = Some ex \<or>
          declare_raises br = None \<and> publish_raises br = Some ex))) \<and>
   (snd (put_message TTL uuid4 br message p) = RetryRequested \<longrightarrow>
      es_queue (fst (put_message TTL uuid4 br message p)) = es_queue p \<and>
      length (logged (fst (put_message TTL uuid4 br message p))) = Suc (length (logged p)))"
proof (cases "subscript (getitem message ''meniscus'') ''tenant''")
  case (Inl ex)
  then show ?thesis
    using tenant_raises [OF Inl] by (simp add: put_message_def put_message_except_def)
next
  case tenant: (Inr index)
  show ?thesis
  proof (cases "subscript (subscript (getitem message ''meniscus'') ''correlation'') ''pattern''")
    case (Inl ex)
    then show ?thesis
      using tenant pattern_raises [OF Inl]
      by (simp add: put_message_def put_message_except_def)
  next
    case (Inr doc_type)
    then show ?thesis
      using tenant
      by (cases "declare_raises br"; cases "publish_raises br")
        (auto simp: put_message_def put_message_except_def queue_index_request_cases)
  qed
qed

theorem put_message_retries_on_exception_witness:
  "snd (put_message (JStr ''30d'') uuid_of_call reliable_broker doc_without_tenant
      new_publisher) = RetryRequested \<and>
   isl (subscript (getitem doc_without_tenant ''meniscus'') ''tenant'') \<and>
   es_queue (fst (put_message (JStr ''30d'') uuid_of_call reliable_broker doc_without_tenant
      new_publisher)) = [] \<and>
   logged (fst (put_message (JStr ''30d'') uuid_of_call reliable_broker doc_without_tenant
      new_publisher)) = [KeyError]"
proof -
  have l: "isl (subscript (getitem doc_without_tenant ''meniscus'') ''tenant'')"
    by (simp add: getitem_def doc_without_tenant_def)
  then have r: "snd (put_message (JStr ''30d'') uuid_of_call reliable_broker doc_without_tenant
      new_publisher) = RetryRequested"
    using put_message_retries_on_exception
      [of "JStr ''30d''" uuid_of_call reliable_broker doc_without_tenant new_publisher]
    by blast
  then have "es_queue (fst (put_message (JStr ''30d'') uuid_of_call reliable_broker
      doc_without_tenant new_publisher)) = es_queue new_publisher"
    using put_message_retries_on_exception
      [of "JStr ''30d''" uuid_of_call reliable_broker doc_without_tenant new_publisher]
    by blast
  moreover have "logged (fst (put_message (JStr ''30d'') uuid_of_call reliable_broker
      doc_without_tenant new_publisher)) = [KeyError]"
    by (simp add: put_message_def put_message_except_def getitem_def doc_without_tenant_def
        new_publisher_def)
  ultimately show ?thesis
    using l r by (simp add: new_publisher_def)
qed

text \<open>
  Claim C7. For a document from which both required fields can be read, and a broker
  that raises nothing, \<^verbatim>\<open>put_message\<close> puts one action on the queue: a dictionary with
  exactly the keys \<^verbatim>\<open>_index\<close>, \<^verbatim>\<open>_type\<close>, \<^verbatim>\<open>_id\<close>, \<^verbatim>\<open>_ttl\<close>, \<^verbatim>\<open>_source\<close>, holding the tenant, the
  correlation pattern, the text of an identifier drawn from \<^verbatim>\<open>uuid4\<close> in this very call,
  the configured \<open>TTL\<close> and the document as it came. Every call that builds an action
  draws the next identifier, so over any sequence of calls the identifiers on the queue
  are pairwise distinct as long as \<^verbatim>\<open>uuid4\<close> does not repeat itself.
\<close>

theorem put_message_builds_index_action:
  "(subscript (getitem message ''meniscus'') ''tenant'' = Inr index \<longrightarrow>
    subscript (subscript (getitem message ''meniscus'') ''correlation'') ''pattern'' =
      Inr doc_type \<longrightarrow>
    declare_raises br = None \<longrightarrow> publish_raises br = None \<longrightarrow>
    put_message TTL uuid4 br message p =
      (p\<lparr>uuid_calls := Suc (uuid_calls p),
         es_queue := es_queue p @
           [JObj [(''_index'', index), (''_type'', doc_type),
              (''_id'', JStr (uuid4 (uuid_calls p))), (''_ttl'', TTL),
              (''_source'', message)]]\<rparr>, Returned)) \<and>
   (inj uuid4 \<longrightarrow>
    distinct (map action_id (es_queue (put_messages TTL uuid4 calls new_publisher))))"
  by (simp add: put_message_def queue_index_request_cases put_messages_distinct_ids)

theorem put_message_builds_index_action_witness:
  "put_message (JStr ''30d'') uuid_of_call reliable_broker correlated_doc new_publisher =
     (\<lparr>uuid_calls = 1,
       es_queue = [JObj [(''_index'', JStr ''t1''), (''_type'', JStr ''apache''),
          (''_id'', JStr ''f''), (''_ttl'', JStr ''30d''), (''_source'', correlated_doc)]],
       logged = []\<rparr>, Returned) \<and>
   inj uuid_of_call \<and>
   distinct (map action_id (es_queue (put_messages (JStr ''30d'') uuid_of_call
     [(reliable_broker, correlated_doc), (reliable_broker, correlated_doc)] new_publisher))) \<and>
   map action_id (es_queue (put_messages (JStr ''30d'') uuid_of_call
     [(reliable_broker, correlated_doc), (reliable_broker, correlated_doc)] new_publisher)) =
     [Some (JStr ''f''), Some (JStr ''ff'')]"
proof -
  have t: "subscript (getitem correlated_doc ''meniscus'') ''tenant'' = Inr (JStr ''t1'')"
    by (simp add: getitem_def correlated_doc_def)
  have c: "subscript (subscript (getitem correlated_doc ''meniscus'') ''correlation'')
      ''pattern'' = Inr (JStr ''apache'')"
    by (simp add: getitem_def correlated_doc_def)
  have one: "put_message (JStr ''30d'') uuid_of_call reliable_broker correlated_doc
      new_publisher =
     (new_publisher\<lparr>uuid_calls := Suc (uuid_calls new_publisher),
         es_queue := es_queue new_publisher @
           [JObj [(''_index'', JStr ''t1''), (''_type'', JStr ''apache''),
              (''_id'', JStr (uuid_of_call (uuid_calls new_publisher))),
              (''_ttl'', JStr ''30d''), (''_source'', correlated_doc)]]\<rparr>, Returned)"
    using put_message_builds_index_action
      [where message = correlated_doc and index = "JStr ''t1''"
        and doc_type = "JStr ''apache''" and br = reliable_broker
        and TTL = "JStr ''30d''" and ?uuid4.0 = uuid_of_call and p = new_publisher,
        THEN conjunct1]
      t c
    by (simp add: reliable_broker_def)
  have two: "distinct (map action_id (es_queue (put_messages (JStr ''30d'') uuid_of_call
     [(reliable_broker, correlated_doc), (reliable_broker, correlated_doc)] new_publisher)))"
    using put_message_builds_index_action
      [where ?uuid4.0 = uuid_of_call and TTL = "JStr ''30d''"
        and calls = "[(reliable_broker, correlated_doc), (reliable_broker, correlated_doc)]",
        THEN conjunct2]
      inj_uuid_of_call
    by blast
  have three: "map action_id (es_queue (put_messages (JStr ''30d'') uuid_of_call
     [(reliable_broker, correlated_doc), (reliable_broker, correlated_doc)] new_publisher)) =
     [Some (JStr ''f''), Some (JStr ''ff'')]"
    by (simp add: put_message_def queue_index_request_cases t c reliable_broker_def
        new_publisher_def uuid_of_call_def)
  show ?thesis
    using one two three inj_uuid_of_call
    by (simp add: new_publisher_def uuid_of_call_def)
qed

text \<open>
  Claim C8 does not hold of the code. The constructor stores its \<open>bulk_size\<close> argument
  (line 140) and nothing reads it: \<^verbatim>\<open>start\<close> passes \<^verbatim>\<open>bulk_timeout\<close> alone to the workers, and
  \<^verbatim>\<open>flush_to_es\<close> gives the bulker the module's \<open>BULK_SIZE\<close> (line 120), although its
  docstring lists a parameter \<^verbatim>\<open>bulk_size\<close>. A bulker built with \<open>bulk_size = 1\<close>, where the
  handler's configuration says 2, starts a worker that submits A and B as one chunk of
  two; and the workers of a bulker are the same whatever its \<open>bulk_size\<close> is.
\<close>

theorem bulk_size_argument_is_ignored:
  "bulk_size (ElasticSearchStreamBulker_init 2 4 (Some 1) None (Some 1)) = 1 \<and>
   map_sum id (\<lambda>r. map (\<lambda>w. bulk_writes (trace w)) (snd (snd r)))
     (start 2 (\<lambda>i. (all_ok, [deliver msg_A, deliver msg_B])) new_process
        (ElasticSearchStreamBulker_init 2 4 (Some 1) None (Some 1))) =
     Inr [[[JStr ''A'', JStr ''B'']]] \<and>
   map_sum id (\<lambda>r. snd (snd r)) (start BULK_SIZE env proc (self\<lparr>bulk_size := b\<rparr>)) =
     map_sum id (\<lambda>r. snd (snd r)) (start BULK_SIZE env proc self)"
  by (simp add: ElasticSearchStreamBulker_init_def start_def Let_def flush_to_es_def
      new_cycle_def fresh_worker_def deliver_def pull_step_def get_queue_stream_def
      streaming_bulk_def all_ok_def msg_A_def msg_B_def)

text \<open>
  Claim C9 does not hold of the code. \<^verbatim>\<open>start\<close> defines \<^verbatim>\<open>signal_handler\<close>, which would
  close and join the pool and exit, and never installs it: where \<^verbatim>\<open>start\<close> gets past the
  creation of the pool, the handlers of the process are afterwards what they were
  before, and in a process that had none a signal runs none of the module's code.
\<close>

theorem start_installs_no_signal_handler:
  "map_sum id (\<lambda>r. handlers (fst r)) (start BULK_SIZE env proc self) =
     (if concurrency self = 0 then Inl ValueError else Inr (handlers proc)) \<and>
   map_sum id (\<lambda>r. on_signal (fst r) sig) (start BULK_SIZE env new_process self) =
     (if concurrency self = 0 then Inl ValueError else Inr [])"
  by (simp add: start_def Let_def on_signal_def new_process_def)

end
